theory Spec2Isabelle
  imports Main "HOL-Library.Char_ord" "HOL-Library.List_Lexorder" "HOL-Library.Multiset"
    "HOL-Library.Sublist"
begin

section \<open>The nested exception of \<^verbatim>\<open>travesty/cantrips/error_aggregator.py\<close>\<close>

text \<open>
  A value that can be raised is either an ordinary exception or a \<^verbatim>\<open>NestedException\<close>.
  An ordinary exception is opaque to the aggregator except for two things: the classes it is
  an instance of (the names along its method resolution order, which is what
  \<^verbatim>\<open>isinstance\<close> and \<^verbatim>\<open>except\<close> look at) and the text \<^verbatim>\<open>str\<close> gives.

  A \<^verbatim>\<open>NestedException\<close> has the two fields the constructor sets: \<^verbatim>\<open>own_errors\<close>, a
  Python list, and \<^verbatim>\<open>sub_errors\<close>, an \<^verbatim>\<open>OrderedDict\<close>, kept here as an association list
  in insertion order. Python lists are untyped, so \<^verbatim>\<open>own_errors\<close> may hold any exception,
  nested ones included.
\<close>

datatype exc =
    Leaf (mro: "string list") (message: string)
  | Nested nested
and nested =
    NestedException (own_errors: "exc list") (sub_errors: "(string \<times> nested) list")

text \<open>\<^verbatim>\<open>isinstance(e, cls)\<close>: the class is among those the exception's class derives from.\<close>

fun classes_of :: "exc \<Rightarrow> string list" where
  "classes_of (Leaf c m) = c"
| "classes_of (Nested n) = [''NestedException'', ''Exception'', ''BaseException'', ''object'']"

definition isinstance :: "exc \<Rightarrow> string \<Rightarrow> bool" where
  "isinstance e cls = (cls \<in> set (classes_of e))"

subsection \<open>Dictionary operations used on \<^verbatim>\<open>sub_errors\<close>\<close>

text \<open>
  \<^verbatim>\<open>d.setdefault(key, default)\<close> returns the value stored under the key, after storing the
  default at the end of the dictionary when the key is new.
\<close>

definition setdefault ::
  "(string \<times> nested) list \<Rightarrow> string \<Rightarrow> nested \<Rightarrow> nested \<times> (string \<times> nested) list" where
  "setdefault d key dflt =
     (case map_of d key of Some v \<Rightarrow> (v, d) | None \<Rightarrow> (dflt, d @ [(key, dflt)]))"

text \<open>
  The child that \<^verbatim>\<open>setdefault\<close> returns is mutated in place by the caller; in a model of
  values the changed child is written back under its key, the position of the key unchanged.
\<close>

fun store :: "(string \<times> nested) list \<Rightarrow> string \<Rightarrow> nested \<Rightarrow> (string \<times> nested) list" where
  "store [] key v = [(key, v)]"
| "store ((k, w) # d) key v = (if k = key then (k, v) # d else (k, w) # store d key v)"

subsection \<open>\<^verbatim>\<open>__nonzero__\<close>, \<^verbatim>\<open>__getitem__\<close>\<close>

definition nonzero :: "nested \<Rightarrow> bool" where
  "nonzero self = (own_errors self \<noteq> [] \<or> sub_errors self \<noteq> [])"

text \<open>The emptiness test of the specification is the negation of the truth value.\<close>

definition is_empty :: "nested \<Rightarrow> bool" where
  "is_empty self = (\<not> nonzero self)"




subsection \<open>\<^verbatim>\<open>add_own\<close>, \<^verbatim>\<open>add_sub\<close>, \<^verbatim>\<open>merge\<close>\<close>

text \<open>
  The three methods call each other. \<open>merge_own\<close> and \<open>merge_sub\<close> are the two \<^verbatim>\<open>for\<close>
  loops of \<^verbatim>\<open>merge\<close>, over \<^verbatim>\<open>other.own_errors\<close> and over \<^verbatim>\<open>other.sub_errors.items()\<close>.
  These functions compute on values: the receiver is passed in and returned, and the argument
  is a tree of its own. They say what the receiver holds after a call whose argument shares
  no object with the receiver; \<open>add_own_refines\<close> and \<open>add_sub_refines_any\<close> below prove that
  against the methods on the store of objects, which are the model of the calls themselves.
  A call whose argument shares an object with the receiver is described by the methods on
  the store alone.
\<close>

fun add_own :: "nested \<Rightarrow> exc \<Rightarrow> nested"
and add_sub :: "nested \<Rightarrow> string \<Rightarrow> exc \<Rightarrow> nested"
and merge :: "nested \<Rightarrow> nested \<Rightarrow> nested"
and merge_own :: "nested \<Rightarrow> exc list \<Rightarrow> nested"
and merge_sub :: "nested \<Rightarrow> (string \<times> nested) list \<Rightarrow> nested" where
  "add_own self (Nested other) = merge self other"
| "add_own self (Leaf c m) = NestedException (own_errors self @ [Leaf c m]) (sub_errors self)"
| "add_sub self key e =
     (let (child, d) = setdefault (sub_errors self) key (NestedException [] [])
      in NestedException (own_errors self) (store d key (add_own child e)))"
| "merge self (NestedException own subs) = merge_sub (merge_own self own) subs"
| "merge_own self [] = self"
| "merge_own self (e # es) = merge_own (add_own self e) es"
| "merge_sub self [] = self"
| "merge_sub self ((key, sub) # rest) = merge_sub (add_sub self key (Nested sub)) rest"

subsection \<open>\<^verbatim>\<open>own_str\<close>, \<^verbatim>\<open>__str__\<close>\<close>

text \<open>\<^verbatim>\<open>sep.join(xs)\<close>.\<close>

fun join :: "string \<Rightarrow> string list \<Rightarrow> string" where
  "join sep [] = []"
| "join sep [x] = x"
| "join sep (x # y # ys) = x @ sep @ join sep (y # ys)"

text \<open>
  \<^verbatim>\<open>str\<close> of an exception, and \<^verbatim>\<open>NestedException.__str__\<close>. \<^verbatim>\<open>sorted\<close> orders the
  \<open>(key, value)\<close> pairs; the keys of a dictionary differ pairwise, so the order is the order
  of the keys, strings compared character by character.
\<close>

fun str_exc :: "exc \<Rightarrow> string"
and str_nested :: "nested \<Rightarrow> string" where
  "str_exc (Leaf c m) = m"
| "str_exc (Nested n) = str_nested n"
| "str_nested (NestedException own subs) =
     (let n_own = length own; n_sub = length subs in
      if n_own + n_sub = 0 then ''<no message>''
      else
        let own_s = join '', '' (map str_exc own);
            other = join '', '' (map (\<lambda>(key, err). key @ '': ['' @ str_nested err @ '']'')
                                   (sort_key fst subs))
        in join ''; '' (filter (\<lambda>x. x \<noteq> []) [own_s, other]))"

definition own_str :: "nested \<Rightarrow> string" where
  "own_str self =
     (if length (own_errors self) = 0 then ''<no message>''
      else join '', '' (map str_exc (own_errors self)))"

section \<open>The aggregator\<close>

text \<open>
  \<^verbatim>\<open>ErrorAggregator\<close>: the exception under construction, the \<^verbatim>\<open>autoraise\<close> flag, and the
  class attribute \<^verbatim>\<open>catch_type\<close> (a class, by name). A method returns the aggregator as it
  leaves it together with how the call ended. The exception under construction is a value
  here, which is all that \<open>has_errors\<close> and \<open>raise_if_any\<close> read, and which fits a recording
  of a failure that shares no object with it. The recording methods and the two context
  managers are given again on the store of objects further down, where the failure handed
  to them may be the root itself.
\<close>

record aggregator =
  error :: nested
  autoraise :: bool
  catch_type :: string

datatype outcome = Return | Raise exc

definition init :: "bool \<Rightarrow> aggregator" where
  "init ar = \<lparr>error = NestedException [] [], autoraise = ar, catch_type = ''Exception''\<rparr>"

definition own_error :: "aggregator \<Rightarrow> exc \<Rightarrow> aggregator \<times> outcome" where
  "own_error self err =
     (let self' = self\<lparr>error := add_own (error self) err\<rparr>
      in if autoraise self' then (self', Raise (Nested (error self'))) else (self', Return))"

definition sub_error :: "aggregator \<Rightarrow> string \<Rightarrow> exc \<Rightarrow> aggregator \<times> outcome" where
  "sub_error self key err =
     (let self' = self\<lparr>error := add_sub (error self) key err\<rparr>
      in if autoraise self' then (self', Raise (Nested (error self'))) else (self', Return))"

definition has_errors :: "aggregator \<Rightarrow> bool" where
  "has_errors self = nonzero (error self)"

definition raise_if_any :: "aggregator \<Rightarrow> aggregator \<times> outcome" where
  "raise_if_any self =
     (if has_errors self then (self, Raise (Nested (error self))) else (self, Return))"

section \<open>Definitions that follow the specification\<close>

text \<open>
  The emptiness test as the specification words it: \<open>own\<close> is empty and every child is
  empty under the same test.
\<close>

fun is_empty_rec :: "nested \<Rightarrow> bool" where
  "is_empty_rec (NestedException own subs) =
     (own = [] \<and> list_all (\<lambda>(key, child). is_empty_rec child) subs)"

text \<open>
  The full rendering as the specification words it: the placeholder when both parts are
  empty; otherwise the own part and the children part, the children taken in ascending key
  order, the two parts joined with \<open>; \<close> and an empty part left out.
\<close>

definition glue :: "string \<Rightarrow> string \<Rightarrow> string" where
  "glue own_part children_part =
     (if own_part = [] then children_part
      else if children_part = [] then own_part
      else own_part @ ''; '' @ children_part)"

fun full_summary :: "nested \<Rightarrow> string" where
  "full_summary (NestedException own subs) =
     (if own = [] \<and> subs = [] then ''<no message>''
      else glue (join '', '' (map str_exc own))
                (join '', '' (map (\<lambda>(key, child). key @ '': ['' @ full_summary child @ '']'')
                                 (sort_key fst subs))))"


text \<open>An exception of class \<^verbatim>\<open>Exception\<close> with the given message, for the examples.\<close>

definition Err :: "string \<Rightarrow> exc" where
  "Err m = Leaf [''Exception'', ''BaseException'', ''object''] m"

text \<open>
  One tree extends another: at every node of the first, the own list is an initial part of
  the own list at the same place of the second, and the children of the first are the first
  children of the second, under the same keys, each extended in turn. Nothing recorded in
  the first tree is missing from the second.
\<close>

fun extends :: "nested \<Rightarrow> nested \<Rightarrow> bool"
and extends_subs :: "(string \<times> nested) list \<Rightarrow> (string \<times> nested) list \<Rightarrow> bool" where
  "extends (NestedException own subs) b =
     (prefix own (own_errors b) \<and> extends_subs subs (sub_errors b))"
| "extends_subs [] ys = True"
| "extends_subs ((k, c) # xs) [] = False"
| "extends_subs ((k, c) # xs) ((k', c') # ys) = (k = k' \<and> extends c c' \<and> extends_subs xs ys)"

text \<open>
  A tree as the methods build it: own lists hold ordinary exceptions, and the children, being
  a dictionary, have pairwise different keys; the same for every child.
\<close>

fun wf_nested :: "nested \<Rightarrow> bool" where
  "wf_nested (NestedException own subs) =
     (list_all is_Leaf own \<and> distinct (map fst subs)
      \<and> list_all (\<lambda>(key, child). wf_nested child) subs)"

section \<open>The same methods on a store of objects\<close>

text \<open>
  In Python a \<^verbatim>\<open>NestedException\<close> is an object: two names may denote the same one, and the
  methods change it in place. Here the store is the list of the objects created so far and an
  address is a position in it. An element of \<^verbatim>\<open>own_errors\<close> is an ordinary exception or a
  reference to a \<^verbatim>\<open>NestedException\<close>; a value of \<^verbatim>\<open>sub_errors\<close> is a reference.
\<close>

type_synonym addr = nat

datatype ref_exc = Plain "string list" string | Ref addr

record object =
  obj_own_errors :: "ref_exc list"
  obj_sub_errors :: "(string \<times> addr) list"

type_synonym pystore = "object list"

definition new_object :: object where
  "new_object = \<lparr>obj_own_errors = [], obj_sub_errors = []\<rparr>"

text \<open>
  The methods, with a bound on the depth of calls: on a store with shared or cyclic objects
  the Python code need not return, and \<open>None\<close> stands for a run that the bound cuts off (or
  that follows a reference to no object).
  \<^item> \<open>add_sub\<close> evaluates \<^verbatim>\<open>type(self)()\<close>, a new object, before \<^verbatim>\<open>setdefault\<close> looks the
    key up; the new object becomes the child only when the key is new.
  \<^item> The first loop of \<open>merge\<close> walks the list \<^verbatim>\<open>other.own_errors\<close> by position and reads it
    anew in every round, as a Python list iterator does.
  \<^item> The second loop walks \<^verbatim>\<open>other.sub_errors.items()\<close>, taken when the loop starts: a list
    in Python 2, the version the package declares. (A Python 3 view gives the same rounds
    as long as the dictionary of \<open>other\<close> gets no new key during the loop.)
\<close>

function add_own_st :: "nat \<Rightarrow> pystore \<Rightarrow> addr \<Rightarrow> ref_exc \<Rightarrow> pystore option"
and add_sub_st :: "nat \<Rightarrow> pystore \<Rightarrow> addr \<Rightarrow> string \<Rightarrow> ref_exc \<Rightarrow> pystore option"
and merge_st :: "nat \<Rightarrow> pystore \<Rightarrow> addr \<Rightarrow> addr \<Rightarrow> pystore option"
and merge_own_st :: "nat \<Rightarrow> pystore \<Rightarrow> addr \<Rightarrow> addr \<Rightarrow> nat \<Rightarrow> pystore option"
and merge_sub_st :: "nat \<Rightarrow> pystore \<Rightarrow> addr \<Rightarrow> (string \<times> addr) list \<Rightarrow> pystore option" where
  "add_own_st 0 h self e = None"
| "add_own_st (Suc n) h self e =
     (case e of
        Ref other \<Rightarrow> merge_st n h self other
      | Plain c m \<Rightarrow>
          if self < length h
          then Some (h[self := (h ! self)\<lparr>obj_own_errors :=
                                 obj_own_errors (h ! self) @ [Plain c m]\<rparr>])
          else None)"
| "add_sub_st 0 h self key e = None"
| "add_sub_st (Suc n) h self key e =
     (if self < length h then
        let fresh = length h;
            h1 = h @ [new_object]
        in case map_of (obj_sub_errors (h1 ! self)) key of
             Some child \<Rightarrow> add_own_st n h1 child e
           | None \<Rightarrow>
               add_own_st n
                 (h1[self := (h1 ! self)\<lparr>obj_sub_errors :=
                                obj_sub_errors (h1 ! self) @ [(key, fresh)]\<rparr>])
                 fresh e
      else None)"
| "merge_st 0 h self other = None"
| "merge_st (Suc n) h self other =
     (case merge_own_st n h self other 0 of
        None \<Rightarrow> None
      | Some h1 \<Rightarrow>
          if other < length h1 then merge_sub_st n h1 self (obj_sub_errors (h1 ! other))
          else None)"
| "merge_own_st 0 h self other i = None"
| "merge_own_st (Suc n) h self other i =
     (if other < length h then
        if i < length (obj_own_errors (h ! other)) then
          (case add_own_st n h self (obj_own_errors (h ! other) ! i) of
             None \<Rightarrow> None
           | Some h' \<Rightarrow> merge_own_st n h' self other (Suc i))
        else Some h
      else None)"
| "merge_sub_st 0 h self items = None"
| "merge_sub_st (Suc n) h self items =
     (case items of
        [] \<Rightarrow> Some h
      | (key, sub) # rest \<Rightarrow>
          (case add_sub_st n h self key (Ref sub) of
             None \<Rightarrow> None
           | Some h' \<Rightarrow> merge_sub_st n h' self rest))"
  by pat_completeness auto
termination
  by (relation "measure (case_sum (case_sum fst fst) (case_sum fst (case_sum fst fst)))") auto

text \<open>
  A set of addresses that holds, with every object, the children of the object; and a run
  from \<open>h\<close> to \<open>h'\<close> that wrote nothing outside the set \<open>W\<close> and the objects it created.
\<close>

definition closed_under_subs :: "pystore \<Rightarrow> addr set \<Rightarrow> bool" where
  "closed_under_subs h W = (\<forall>a\<in>W. a < length h \<and> (\<forall>(key, c)\<in>set (obj_sub_errors (h ! a)). c \<in> W))"

definition writes_inside :: "pystore \<Rightarrow> pystore \<Rightarrow> addr set \<Rightarrow> bool" where
  "writes_inside h h' W =
     (length h \<le> length h' \<and> (\<forall>a<length h. a \<notin> W \<longrightarrow> h' ! a = h ! a)
      \<and> closed_under_subs h' (W \<union> {length h..<length h'}))"

text \<open>
  The object at an address is the root of a finite tree, of depth at most \<open>d\<close>, whose own
  lists hold ordinary exceptions only: what the methods build from an empty
  \<^verbatim>\<open>NestedException\<close>. And two sets of objects, each holding the children of its members,
  that share no object.
\<close>

fun is_plain :: "ref_exc \<Rightarrow> bool" where
  "is_plain (Plain c m) = True"
| "is_plain (Ref a) = False"

fun plain_tree :: "nat \<Rightarrow> pystore \<Rightarrow> addr \<Rightarrow> bool" where
  "plain_tree 0 h a = False"
| "plain_tree (Suc d) h a =
     (a < length h \<and> list_all is_plain (obj_own_errors (h ! a))
      \<and> list_all (\<lambda>(key, c). plain_tree d h c) (obj_sub_errors (h ! a)))"

definition separate :: "pystore \<Rightarrow> addr set \<Rightarrow> addr set \<Rightarrow> bool" where
  "separate h W S = (closed_under_subs h W \<and> closed_under_subs h S \<and> W \<inter> S = {})"

subsection \<open>Trees in the store\<close>

text \<open>
  An element of an own list in the store and an exception as a value are the same ordinary
  exception. A reference is never the same as a value: the trees below have no
  \<^verbatim>\<open>NestedException\<close> in an own list.
\<close>

fun same_exc :: "ref_exc \<Rightarrow> exc \<Rightarrow> bool" where
  "same_exc (Plain c m) (Leaf c' m') = (c = c' \<and> m = m')"
| "same_exc (Plain c m) (Nested v) = False"
| "same_exc (Ref a) e = False"

text \<open>
  \<open>tree_at h a v F\<close>: the object at the address \<open>a\<close> of the store \<open>h\<close> is the root of a finite
  tree of objects, \<open>F\<close> is the set of the objects of that tree, and \<open>v\<close> is the tree read as a
  value: own list for own list, child for child, in the order of the dictionary. No object
  occurs twice in the tree: the trees of two children share no object, and the root is not
  below itself. This is how the objects lie that the methods build from empty
  \<^verbatim>\<open>NestedException\<close>s, every child being made by \<^verbatim>\<open>type(self)()\<close> in \<open>add_sub\<close>.
  \<open>trees_at\<close> is the same for the items of a dictionary.
\<close>

inductive tree_at :: "pystore \<Rightarrow> addr \<Rightarrow> nested \<Rightarrow> addr set \<Rightarrow> bool"
  and trees_at :: "pystore \<Rightarrow> (string \<times> addr) list \<Rightarrow> (string \<times> nested) list \<Rightarrow> addr set \<Rightarrow> bool"
  for h :: pystore where
  node: "a < length h \<Longrightarrow> list_all2 same_exc (obj_own_errors (h ! a)) own \<Longrightarrow>
         trees_at h (obj_sub_errors (h ! a)) subs F \<Longrightarrow> a \<notin> F \<Longrightarrow>
         tree_at h a (NestedException own subs) (insert a F)"
| none: "trees_at h [] [] {}"
| more: "tree_at h c v F1 \<Longrightarrow> trees_at h cs vs F2 \<Longrightarrow> F1 \<inter> F2 = {} \<Longrightarrow>
         trees_at h ((k, c) # cs) ((k, v) # vs) (F1 \<union> F2)"

text \<open>
  The same for an exception handed to a method: an ordinary exception takes no object of the
  store, a \<^verbatim>\<open>NestedException\<close> is a tree of objects.
\<close>

inductive exc_at :: "pystore \<Rightarrow> ref_exc \<Rightarrow> exc \<Rightarrow> addr set \<Rightarrow> bool" for h :: pystore where
  plain: "exc_at h (Plain c m) (Leaf c m) {}"
| tree: "tree_at h a v F \<Longrightarrow> exc_at h (Ref a) (Nested v) F"

text \<open>
  From a store \<open>h\<close>, in which a tree has the objects \<open>F\<close>, to a store \<open>h'\<close>, in which it has the
  objects \<open>F'\<close>: no object is lost, the tree has gained new objects only, and the old objects
  outside the tree are as they were.
\<close>

definition grows :: "pystore \<Rightarrow> addr set \<Rightarrow> pystore \<Rightarrow> addr set \<Rightarrow> bool" where
  "grows h F h' F' =
     (length h \<le> length h' \<and> F \<subseteq> F' \<and> F' \<subseteq> F \<union> {length h..<length h'}
      \<and> (\<forall>x<length h. x \<notin> F \<longrightarrow> h' ! x = h ! x))"

inductive_cases tree_at_nodeE: "tree_at h a (NestedException own subs) F"
inductive_cases trees_at_consE: "trees_at h (x # cs) vs F"
inductive_cases trees_at_nilE: "trees_at h [] vs F"
inductive_cases exc_at_plainE: "exc_at h (Plain c m) ev F"
inductive_cases exc_at_refE: "exc_at h (Ref a) ev F"

subsection \<open>The aggregator on the store\<close>

text \<open>
  \<^verbatim>\<open>ErrorAggregator\<close> with \<^verbatim>\<open>self.error\<close> as the address of an object. A method returns the
  store as it leaves it together with how the call ended; \<^verbatim>\<open>raise self.error\<close> raises the
  reference to the root object, not a copy. The bound is the one of \<open>add_own\<close> and \<open>add_sub\<close>
  on the store, and \<open>None\<close> again stands for a call that does not return.
\<close>

record aggregator_st =
  error_ref :: addr
  autoraise_st :: bool
  catch_type_st :: string

datatype outcome_st = Return_st | Raise_st ref_exc

fun classes_of_st :: "ref_exc \<Rightarrow> string list" where
  "classes_of_st (Plain c m) = c"
| "classes_of_st (Ref a) = [''NestedException'', ''Exception'', ''BaseException'', ''object'']"

definition isinstance_st :: "ref_exc \<Rightarrow> string \<Rightarrow> bool" where
  "isinstance_st e cls = (cls \<in> set (classes_of_st e))"

definition own_error_st ::
  "nat \<Rightarrow> pystore \<Rightarrow> aggregator_st \<Rightarrow> ref_exc \<Rightarrow> (pystore \<times> outcome_st) option" where
  "own_error_st fuel h self err =
     (case add_own_st fuel h (error_ref self) err of
        None \<Rightarrow> None
      | Some h' \<Rightarrow>
          Some (h', if autoraise_st self then Raise_st (Ref (error_ref self)) else Return_st))"

definition sub_error_st ::
  "nat \<Rightarrow> pystore \<Rightarrow> aggregator_st \<Rightarrow> string \<Rightarrow> ref_exc \<Rightarrow> (pystore \<times> outcome_st) option" where
  "sub_error_st fuel h self key err =
     (case add_sub_st fuel h (error_ref self) key err of
        None \<Rightarrow> None
      | Some h' \<Rightarrow>
          Some (h', if autoraise_st self then Raise_st (Ref (error_ref self)) else Return_st))"

text \<open>
  The two context managers. The body of the \<^verbatim>\<open>with\<close> statement is given by how it ended, and
  the store is the store as the body left it.
\<close>

definition checking_st ::
  "nat \<Rightarrow> pystore \<Rightarrow> aggregator_st \<Rightarrow> outcome_st \<Rightarrow> (pystore \<times> outcome_st) option" where
  "checking_st fuel h self body =
     (case body of
        Return_st \<Rightarrow> Some (h, Return_st)
      | Raise_st e \<Rightarrow>
          if isinstance_st e (catch_type_st self) then own_error_st fuel h self e
          else Some (h, Raise_st e))"

definition checking_sub_st ::
  "nat \<Rightarrow> pystore \<Rightarrow> aggregator_st \<Rightarrow> string \<Rightarrow> outcome_st \<Rightarrow> (pystore \<times> outcome_st) option" where
  "checking_sub_st fuel h self key body =
     (case body of
        Return_st \<Rightarrow> Some (h, Return_st)
      | Raise_st e \<Rightarrow>
          if isinstance_st e (catch_type_st self) then sub_error_st fuel h self key e
          else Some (h, Raise_st e))"

text \<open>An exception of class \<^verbatim>\<open>Exception\<close> with the given message, in the store.\<close>

definition Err_st :: "string \<Rightarrow> ref_exc" where
  "Err_st m = Plain [''Exception'', ''BaseException'', ''object''] m"

section \<open>Basic facts about the operations\<close>

text \<open>Induction over a tree: the property holds of a node when it holds of its children.\<close>

lemma nested_children_induct [case_names NestedException]:
  assumes "\<And>own subs. (\<And>key child. (key, child) \<in> set subs \<Longrightarrow> P child)
             \<Longrightarrow> P (NestedException own subs)"
  shows "P t"
  by (rule nested.induct[where ?P1.0 = "\<lambda>_. True" and ?P2.0 = P])
     (auto intro: assms)

lemma own_errors_add_sub: "own_errors (add_sub self key e) = own_errors self"
  by (simp add: setdefault_def split: option.split)

lemma merge_sub_fold:
  "merge_sub self subs = fold (\<lambda>(key, sub) m. add_sub m key (Nested sub)) subs self"
  by (induction subs arbitrary: self) (auto simp del: add_sub.simps)

lemma own_errors_merge_sub: "own_errors (merge_sub self subs) = own_errors self"
  by (induction subs arbitrary: self) (auto simp: own_errors_add_sub simp del: add_sub.simps)

lemma merge_own_leaves:
  "list_all is_Leaf es \<Longrightarrow>
   merge_own self es = NestedException (own_errors self @ es) (sub_errors self)"
proof (induction es arbitrary: self)
  case Nil
  then show ?case by simp
next
  case (Cons e es)
  then obtain c m where e: "e = Leaf c m" by (cases e) auto
  from Cons show ?case by (simp add: e)
qed

lemma store_new:
  "map_of d key = None \<Longrightarrow> store (d @ [(key, w)]) key v = d @ [(key, v)]"
  by (induction d) (auto split: if_splits)

lemma add_sub_cases:
  "add_sub n key e
     = NestedException (own_errors n)
         (case map_of (sub_errors n) key of
            None \<Rightarrow> sub_errors n @ [(key, add_own (NestedException [] []) e)]
          | Some child \<Rightarrow> store (sub_errors n) key (add_own child e))"
  by (simp add: setdefault_def store_new split: option.split)


lemma map_of_pres:
  "list_all (\<lambda>(key, child). P child) d \<Longrightarrow> map_of d k = Some c \<Longrightarrow> P c"
  by (induction d) (auto split: if_splits)

lemma join_glue: "join ''; '' (filter (\<lambda>x. x \<noteq> []) [a, b]) = glue a b"
  by (simp add: glue_def)

lemma str_nested_full_summary: "str_nested t = full_summary t"
proof (induction t rule: full_summary.induct)
  case (1 own subs)
  show ?case
  proof (cases "own = [] \<and> subs = []")
    case True
    then show ?thesis by simp
  next
    case False
    define r1 where
      "r1 = join '', '' (map (\<lambda>(key, err). key @ '': ['' @ str_nested err @ '']'')
                           (sort_key fst subs))"
    define r2 where
      "r2 = join '', '' (map (\<lambda>(key, child). key @ '': ['' @ full_summary child @ '']'')
                           (sort_key fst subs))"
    have eq: "r1 = r2"
      unfolding r1_def r2_def
      by (rule arg_cong[where f = "join '', ''"], rule map_cong[OF refl])
         (use 1 False in auto)
    have "str_nested (NestedException own subs)
            = join ''; '' (filter (\<lambda>x. x \<noteq> []) [join '', '' (map str_exc own), r1])"
      using False unfolding r1_def by (auto simp: Let_def simp del: join.simps filter.simps)
    also have "\<dots> = glue (join '', '' (map str_exc own)) r2"
      unfolding eq by (rule join_glue)
    also have "\<dots> = full_summary (NestedException own subs)"
      using False unfolding r2_def by (auto simp del: join.simps)
    finally show ?thesis .
  qed
qed

lemma filter_key_distinct:
  assumes "distinct (map fst xs)" "(k, v) \<in> set xs"
  shows "filter (\<lambda>x. k = fst x) xs = [(k, v)]"
  using assms by (induction xs) (auto simp: rev_image_eqI filter_empty_conv)

text \<open>With pairwise different keys, the sorted items do not depend on the insertion order.\<close>

lemma sort_key_fst_unique:
  fixes xs ys :: "(string \<times> 'a) list"
  assumes "distinct (map fst xs)" "mset xs = mset ys"
  shows "sort_key fst xs = sort_key fst ys"
proof (rule properties_for_sort_key)
  show "mset (sort_key fst ys) = mset xs" using assms by simp
  show "sorted (map fst (sort_key fst ys))" by simp
  have dy: "distinct (map fst ys)"
    using assms by (metis mset_map mset_eq_imp_distinct_iff)
  fix k assume "k \<in> set (sort_key fst ys)"
  then have ky: "k \<in> set ys" by simp
  then have kx: "k \<in> set xs" using assms(2) by (metis mset_eq_setD)
  obtain a b where k: "k = (a, b)" by (cases k)
  have ds: "distinct (map fst (sort_key fst ys))"
    using dy by (metis distinct_map distinct_sort set_sort)
  have "filter (\<lambda>x. a = fst x) (sort_key fst ys) = [(a, b)]"
    using ky by (intro filter_key_distinct[OF ds]) (simp add: k)
  moreover have "filter (\<lambda>x. a = fst x) xs = [(a, b)]"
    using kx by (intro filter_key_distinct[OF assms(1)]) (simp add: k)
  ultimately show
    "filter (\<lambda>x. fst k = fst x) (sort_key fst ys) = filter (\<lambda>x. fst k = fst x) xs"
    by (simp add: k)
qed


text \<open>Recording never removes anything: the receiver afterwards extends the receiver before.\<close>

lemma extends_subs_refl_aux:
  "\<forall>(k, c) \<in> set s. extends c c \<Longrightarrow> extends_subs s s"
  by (induction s) auto

lemma extends_refl: "extends t t"
  by (induction t rule: nested_children_induct) (auto intro!: extends_subs_refl_aux)

lemma extends_subs_refl: "extends_subs s s"
  by (rule extends_subs_refl_aux) (simp add: extends_refl split_beta)

lemma extends_trans: "extends a b \<Longrightarrow> extends b c \<Longrightarrow> extends a c"
  and extends_subs_trans: "extends_subs x y \<Longrightarrow> extends_subs y z \<Longrightarrow> extends_subs x z"
proof (induction a b and x y arbitrary: c and z rule: extends_extends_subs.induct)
  case (1 own subs b)
  obtain ob sb where b: "b = NestedException ob sb" by (cases b)
  from 1 show ?case by (auto simp: b intro: prefix_order.trans)
next
  case (4 k c' xs k' c'' ys)
  then show ?case by (cases z) auto
qed auto

lemma extends_subs_append: "extends_subs s (s @ r)"
  by (induction s) (auto simp: extends_refl)

lemma extends_subs_store:
  "map_of s key = Some c \<Longrightarrow> extends c v \<Longrightarrow> extends_subs s (store s key v)"
  by (induction s) (auto simp: extends_refl extends_subs_refl)

lemma extends_grow:
  "extends self (add_own self e)"
  "extends self (add_sub self key e)"
  "extends self (merge self other)"
  "extends self (merge_own self es)"
  "extends self (merge_sub self subs)"
proof (induction self e and self key e and self other and self es and self subs
       rule: add_own_add_sub_merge_merge_own_merge_sub.induct)
  case (2 self c m)
  then show ?case by (cases self) (simp add: extends_subs_refl)
next
  case (3 self key e)
  obtain own subs where s: "self = NestedException own subs" by (cases self)
  show ?case
  proof (cases "map_of subs key")
    case None
    then show ?thesis
      by (simp add: add_sub_cases s extends_subs_append del: add_sub.simps)
  next
    case (Some c)
    have "extends c (add_own c e)"
      using 3 by (simp add: setdefault_def s Some)
    then show ?thesis
      by (simp add: add_sub_cases s Some extends_subs_store del: add_sub.simps)
  qed
next
  case (4 self own subs)
  then show ?case using extends_trans by auto
next
  case (6 self e es)
  then show ?case using extends_trans by auto
next
  case (8 self key sub rest)
  then show ?case using extends_trans by (auto simp del: add_sub.simps)
qed (simp_all add: extends_refl del: add_sub.simps)

text \<open>Merging two trees, key by key; merging is associative on trees.\<close>

lemma keys_store: "map_of d k = Some c \<Longrightarrow> map fst (store d k v) = map fst d"
  by (induction d) (auto split: if_splits)

lemma map_of_store: "map_of (store d k v) = (map_of d)(k \<mapsto> v)"
  by (induction d) auto

lemma keys_add_sub:
  "map fst (sub_errors (add_sub n k e))
     = (if k \<in> set (map fst (sub_errors n)) then map fst (sub_errors n)
        else map fst (sub_errors n) @ [k])"
proof (cases "map_of (sub_errors n) k")
  case None
  then have "k \<notin> fst ` set (sub_errors n)" by (simp add: map_of_eq_None_iff)
  then show ?thesis
    by (simp add: add_sub_cases None del: add_sub.simps)
next
  case (Some c)
  then have "k \<in> fst ` set (sub_errors n)" using map_of_SomeD by force
  with Some show ?thesis
    by (simp add: add_sub_cases keys_store del: add_sub.simps)
qed

lemma map_add_single: "m k = None \<Longrightarrow> [k \<mapsto> v] ++ m = m(k \<mapsto> v)"
  by (rule ext) (auto simp: map_add_def split: option.splits)

lemma map_of_add_sub:
  "map_of (sub_errors (add_sub n k e))
     = (map_of (sub_errors n))
         (k \<mapsto> add_own (case map_of (sub_errors n) k of
                            None \<Rightarrow> NestedException [] [] | Some x \<Rightarrow> x) e)"
  by (cases "map_of (sub_errors n) k")
     (simp_all add: add_sub_cases map_of_store map_add_single del: add_sub.simps)

lemma keys_merge_sub:
  "distinct (map fst bs) \<Longrightarrow>
   map fst (sub_errors (merge_sub n bs))
     = map fst (sub_errors n)
       @ filter (\<lambda>x. x \<notin> set (map fst (sub_errors n))) (map fst bs)"
proof (induction bs arbitrary: n)
  case Nil
  then show ?case by simp
next
  case (Cons b bs)
  obtain k s where b: "b = (k, s)" by (cases b)
  have k: "k \<notin> set (map fst bs)" and d: "distinct (map fst bs)"
    using Cons.prems by (auto simp: b)
  have f: "filter (\<lambda>x. x \<noteq> k \<and> P x) (map fst bs) = filter P (map fst bs)" for P
    using k by (intro filter_cong) auto
  show ?case
    using Cons.IH[OF d, of "add_sub n k (Nested s)"] k
    by (auto simp: b keys_add_sub f conj_commute simp del: add_sub.simps intro!: filter_cong)
qed

lemma map_of_merge_sub:
  "distinct (map fst bs) \<Longrightarrow>
   map_of (sub_errors (merge_sub n bs)) k
     = (case map_of bs k of
          None \<Rightarrow> map_of (sub_errors n) k
        | Some y \<Rightarrow> Some (merge (case map_of (sub_errors n) k of
                                   None \<Rightarrow> NestedException [] [] | Some x \<Rightarrow> x) y))"
proof (induction bs arbitrary: n)
  case Nil
  then show ?case by simp
next
  case (Cons b bs)
  obtain k' s where b: "b = (k', s)" by (cases b)
  have k: "k' \<notin> fst ` set bs" and d: "distinct (map fst bs)"
    using Cons.prems by (auto simp: b)
  then have n: "map_of bs k' = None" by (simp add: map_of_eq_None_iff)
  show ?case
    using Cons.IH[OF d, of "add_sub n k' (Nested s)"] n
    by (auto simp: b map_of_add_sub simp del: add_sub.simps split: option.splits)
qed

lemma assoc_list_eqI:
  "distinct (map fst xs) \<Longrightarrow> map fst xs = map fst ys \<Longrightarrow>
   (\<And>k. k \<in> set (map fst xs) \<Longrightarrow> map_of xs k = map_of ys k) \<Longrightarrow> xs = ys"
proof (induction xs arbitrary: ys)
  case Nil
  then show ?case by simp
next
  case (Cons x xs)
  then obtain y ys' where ys: "ys = y # ys'" by (cases ys) auto
  have fx: "fst x = fst y" using Cons.prems(2) by (simp add: ys)
  have "map_of (x # xs) (fst x) = map_of ys (fst x)" using Cons.prems(3)[of "fst x"] by simp
  then have xy: "x = y" using fx by (cases x; cases y) (simp add: ys)
  have "xs = ys'"
  proof (rule Cons.IH)
    show "distinct (map fst xs)" using Cons.prems(1) by simp
    show "map fst xs = map fst ys'" using Cons.prems(2) by (simp add: ys)
    fix k assume k: "k \<in> set (map fst xs)"
    then have "k \<noteq> fst x" using Cons.prems(1) by (auto simp: rev_image_eqI)
    then show "map_of xs k = map_of ys' k"
      using Cons.prems(3)[of k] k xy by (cases x) (auto simp: ys)
  qed
  then show ?case by (simp add: ys xy)
qed

lemma merge_leaves:
  "list_all is_Leaf (own_errors t) \<Longrightarrow>
   merge n t = merge_sub (NestedException (own_errors n @ own_errors t) (sub_errors n))
                 (sub_errors t)"
  by (cases t) (simp add: merge_own_leaves)

lemma wf_nested_own: "wf_nested t \<Longrightarrow> list_all is_Leaf (own_errors t)"
  and wf_nested_keys: "wf_nested t \<Longrightarrow> distinct (map fst (sub_errors t))"
  and wf_nested_subs: "wf_nested t \<Longrightarrow> list_all (\<lambda>(key, child). wf_nested child) (sub_errors t)"
  by (cases t; simp)+

lemma wf_nested_child: "wf_nested t \<Longrightarrow> map_of (sub_errors t) k = Some c \<Longrightarrow> wf_nested c"
  using map_of_pres[of wf_nested "sub_errors t" k c] by (simp add: wf_nested_subs)

lemma own_errors_merge:
  "wf_nested t \<Longrightarrow> own_errors (merge n t) = own_errors n @ own_errors t"
  by (simp add: merge_leaves own_errors_merge_sub wf_nested_own)

lemma keys_merge:
  "wf_nested t \<Longrightarrow>
   map fst (sub_errors (merge n t))
     = map fst (sub_errors n)
       @ filter (\<lambda>x. x \<notin> set (map fst (sub_errors n))) (map fst (sub_errors t))"
  using keys_merge_sub[of "sub_errors t"
          "NestedException (own_errors n @ own_errors t) (sub_errors n)"]
  by (simp add: merge_leaves wf_nested_own wf_nested_keys)

lemma map_of_merge:
  "wf_nested t \<Longrightarrow>
   map_of (sub_errors (merge n t)) k
     = (case map_of (sub_errors t) k of
          None \<Rightarrow> map_of (sub_errors n) k
        | Some y \<Rightarrow> Some (merge (case map_of (sub_errors n) k of
                                   None \<Rightarrow> NestedException [] [] | Some x \<Rightarrow> x) y))"
  using map_of_merge_sub[of "sub_errors t"
          "NestedException (own_errors n @ own_errors t) (sub_errors n)" k]
  by (simp add: merge_leaves wf_nested_own wf_nested_keys split: option.splits)

lemma distinct_keys_merge:
  "wf_nested t \<Longrightarrow> distinct (map fst (sub_errors n)) \<Longrightarrow>
   distinct (map fst (sub_errors (merge n t)))"
  by (auto simp: keys_merge wf_nested_keys simp del: map_map)

lemma nested_eqI:
  "own_errors a = own_errors b \<Longrightarrow> sub_errors a = sub_errors b \<Longrightarrow> a = b"
  by (cases a; cases b) simp

lemma merge_empty: "wf_nested t \<Longrightarrow> merge (NestedException [] []) t = t"
proof (induction t rule: nested_children_induct)
  case (NestedException own subs)
  define t where "t = NestedException own subs"
  define e where "e = NestedException [] []"
  have st: "sub_errors t = subs" by (simp add: t_def)
  have se: "sub_errors e = []" "own_errors e = []" by (simp_all add: e_def)
  have wf: "wf_nested t" using NestedException.prems by (simp add: t_def)
  have "merge e t = t"
  proof (rule nested_eqI)
    show "own_errors (merge e t) = own_errors t"
      by (simp add: own_errors_merge[OF wf] se)
    show "sub_errors (merge e t) = sub_errors t"
    proof (rule assoc_list_eqI)
      show "distinct (map fst (sub_errors (merge e t)))"
        by (rule distinct_keys_merge[OF wf]) (simp add: se)
      show "map fst (sub_errors (merge e t)) = map fst (sub_errors t)"
        by (simp add: keys_merge[OF wf] se)
      fix k
      show "map_of (sub_errors (merge e t)) k = map_of (sub_errors t) k"
      proof (cases "map_of (sub_errors t) k")
        case None
        then show ?thesis by (simp add: map_of_merge[OF wf] se)
      next
        case (Some y)
        then have "(k, y) \<in> set subs" unfolding st by (rule map_of_SomeD)
        moreover have "wf_nested y" by (rule wf_nested_child[OF wf Some])
        ultimately have "merge (NestedException [] []) y = y"
          by (rule NestedException.IH)
        then show ?thesis using Some by (simp add: map_of_merge[OF wf] se)
      qed
    qed
  qed
  then show ?case by (simp only: t_def e_def)
qed

lemma wf_nestedI:
  assumes "list_all is_Leaf (own_errors x)" "distinct (map fst (sub_errors x))"
    and "\<And>k c. map_of (sub_errors x) k = Some c \<Longrightarrow> wf_nested c"
  shows "wf_nested x"
proof -
  obtain own subs where x: "x = NestedException own subs" by (cases x)
  have "wf_nested c" if "(k, c) \<in> set subs" for k c
    using assms(2) assms(3)[of k c] that by (simp add: x)
  then show ?thesis using assms(1,2) by (auto simp: x list_all_iff)
qed

lemma wf_nested_empty: "wf_nested (NestedException [] [])"
  by simp

lemma wf_merge: "wf_nested n \<Longrightarrow> wf_nested t \<Longrightarrow> wf_nested (merge n t)"
proof (induction t arbitrary: n rule: nested_children_induct)
  case (NestedException own subs)
  define t where "t = NestedException own subs"
  have st: "sub_errors t = subs" by (simp add: t_def)
  have wt: "wf_nested t" and wn: "wf_nested n"
    using NestedException.prems by (simp_all add: t_def)
  have "wf_nested (merge n t)"
  proof (rule wf_nestedI)
    show "list_all is_Leaf (own_errors (merge n t))"
      using wf_nested_own[OF wn] wf_nested_own[OF wt] by (simp only: own_errors_merge[OF wt]) simp
    show "distinct (map fst (sub_errors (merge n t)))"
      by (rule distinct_keys_merge[OF wt wf_nested_keys[OF wn]])
    fix k c assume c: "map_of (sub_errors (merge n t)) k = Some c"
    show "wf_nested c"
    proof (cases "map_of (sub_errors t) k")
      case None
      then have "map_of (sub_errors n) k = Some c"
        using c by (simp add: map_of_merge[OF wt])
      then show ?thesis by (rule wf_nested_child[OF wn])
    next
      case (Some y)
      then have in_t: "(k, y) \<in> set subs" unfolding st by (rule map_of_SomeD)
      have wy: "wf_nested y" by (rule wf_nested_child[OF wt Some])
      define x where "x = (case map_of (sub_errors n) k of
                             None \<Rightarrow> NestedException [] [] | Some x \<Rightarrow> x)"
      have wx: "wf_nested x"
        unfolding x_def using wf_nested_child[OF wn, of k] by (simp split: option.split)
      have "c = merge x y"
        using c Some by (simp add: map_of_merge[OF wt] x_def)
      then show ?thesis using NestedException.IH[OF in_t wx wy] by simp
    qed
  qed
  then show ?case by (simp only: t_def)
qed

lemma merge_assoc:
  "wf_nested a \<Longrightarrow> wf_nested b \<Longrightarrow> wf_nested c \<Longrightarrow>
   merge (merge a b) c = merge a (merge b c)"
proof (induction a arbitrary: b c rule: nested_children_induct)
  case (NestedException own subs)
  define a where "a = NestedException own subs"
  have sa: "sub_errors a = subs" by (simp add: a_def)
  have wa: "wf_nested a" and wb: "wf_nested b" and wc: "wf_nested c"
    using NestedException.prems by (simp_all add: a_def)
  have wab: "wf_nested (merge a b)" and wbc: "wf_nested (merge b c)"
    using wa wb wc by (simp_all only: wf_merge)
  have "merge (merge a b) c = merge a (merge b c)"
  proof (rule nested_eqI)
    show "own_errors (merge (merge a b) c) = own_errors (merge a (merge b c))"
      by (simp only: own_errors_merge[OF wc] own_errors_merge[OF wb] own_errors_merge[OF wbc]
            append_assoc)
    have keys: "map fst (sub_errors (merge (merge a b) c))
                  = map fst (sub_errors (merge a (merge b c)))"
      by (simp only: keys_merge[OF wc] keys_merge[OF wb] keys_merge[OF wbc])
         (auto intro!: filter_cong)
    show "sub_errors (merge (merge a b) c) = sub_errors (merge a (merge b c))"
    proof (rule assoc_list_eqI[OF _ keys])
      show "distinct (map fst (sub_errors (merge (merge a b) c)))"
        by (rule distinct_keys_merge[OF wc wf_nested_keys[OF wab]])
      fix k
      show "map_of (sub_errors (merge (merge a b) c)) k
              = map_of (sub_errors (merge a (merge b c))) k"
      proof (cases "map_of (sub_errors c) k")
        case None
        then show ?thesis
          by (simp add: map_of_merge[OF wc] map_of_merge[OF wb] map_of_merge[OF wbc]
                   split: option.splits)
      next
        case csome: (Some z)
        have wz: "wf_nested z" by (rule wf_nested_child[OF wc csome])
        show ?thesis
        proof (cases "map_of (sub_errors b) k")
          case None
          then show ?thesis
            using csome wz
            by (simp add: map_of_merge[OF wc] map_of_merge[OF wb] map_of_merge[OF wbc]
                     merge_empty split: option.splits)
        next
          case bsome: (Some y)
          have wy: "wf_nested y" by (rule wf_nested_child[OF wb bsome])
          have wyz: "wf_nested (merge y z)" by (rule wf_merge[OF wy wz])
          show ?thesis
          proof (cases "map_of (sub_errors a) k")
            case None
            then show ?thesis
              using csome bsome wy wyz
              by (simp add: map_of_merge[OF wc] map_of_merge[OF wb] map_of_merge[OF wbc]
                       merge_empty)
          next
            case (Some x)
            then have in_a: "(k, x) \<in> set subs" unfolding sa by (rule map_of_SomeD)
            have wx: "wf_nested x" by (rule wf_nested_child[OF wa Some])
            have "merge (merge x y) z = merge x (merge y z)"
              by (rule NestedException.IH[OF in_a wx wy wz])
            then show ?thesis
              using csome bsome Some
              by (simp add: map_of_merge[OF wc] map_of_merge[OF wb] map_of_merge[OF wbc])
          qed
        qed
      qed
    qed
  qed
  then show ?case by (simp only: a_def)
qed

text \<open>The methods on the store write to the tree of the receiver and to new objects only.\<close>

lemma writes_inside_refl: "closed_under_subs h W \<Longrightarrow> writes_inside h h W"
  by (simp add: writes_inside_def)

lemma writes_inside_trans:
  assumes "writes_inside h h1 W" "writes_inside h1 h2 (W \<union> {length h..<length h1})"
  shows "writes_inside h h2 W"
proof -
  have l: "length h \<le> length h1" "length h1 \<le> length h2"
    using assms by (simp_all add: writes_inside_def)
  have "W \<union> {length h..<length h1} \<union> {length h1..<length h2} = W \<union> {length h..<length h2}"
    using l by auto
  then have "closed_under_subs h2 (W \<union> {length h..<length h2})"
    using assms(2) by (simp add: writes_inside_def)
  moreover have "h2 ! a = h ! a" if "a < length h" "a \<notin> W" for a
  proof -
    have "h2 ! a = h1 ! a" using assms(2) that l by (simp add: writes_inside_def)
    then show ?thesis using assms(1) that by (simp add: writes_inside_def)
  qed
  ultimately show ?thesis using l by (simp add: writes_inside_def)
qed

lemma writes_inside_own:
  assumes "closed_under_subs h W" "self \<in> W"
  shows "writes_inside h (h[self := (h ! self)\<lparr>obj_own_errors := es\<rparr>]) W"
proof -
  have "closed_under_subs (h[self := (h ! self)\<lparr>obj_own_errors := es\<rparr>]) W"
    using assms unfolding closed_under_subs_def by (auto simp: nth_list_update)
  moreover have "h[self := x] ! a = h ! a" if "a \<notin> W" for a x
    using that assms(2) by (intro nth_list_update_neq) auto
  ultimately show ?thesis by (simp add: writes_inside_def)
qed

lemma writes_inside_alloc:
  assumes "closed_under_subs h W"
  shows "writes_inside h (h @ [new_object]) W"
proof -
  have "closed_under_subs (h @ [new_object]) (W \<union> {length h})"
    using assms unfolding closed_under_subs_def by (auto simp: nth_append new_object_def)
  moreover have "{length h..<Suc (length h)} = {length h}" by auto
  ultimately show ?thesis by (simp add: writes_inside_def nth_append)
qed

lemma writes_inside_link:
  assumes "closed_under_subs h W" "self \<in> W" "c \<in> W"
  shows "writes_inside h (h[self := (h ! self)\<lparr>obj_sub_errors := obj_sub_errors (h ! self) @ [(key, c)]\<rparr>]) W"
proof -
  have "closed_under_subs (h[self := (h ! self)\<lparr>obj_sub_errors := obj_sub_errors (h ! self) @ [(key, c)]\<rparr>]) W"
    using assms unfolding closed_under_subs_def by (auto simp: nth_list_update)
  moreover have "h[self := x] ! a = h ! a" if "a \<notin> W" for a x
    using that assms(2) by (intro nth_list_update_neq) auto
  ultimately show ?thesis by (simp add: writes_inside_def)
qed

lemma writes_inside_closed: "writes_inside h h' W \<Longrightarrow> closed_under_subs h' (W \<union> {length h..<length h'})"
  by (simp add: writes_inside_def)

lemma children_inside:
  "closed_under_subs h W \<Longrightarrow> self \<in> W \<Longrightarrow> map_of (obj_sub_errors (h ! self)) key = Some c \<Longrightarrow> c \<in> W"
  unfolding closed_under_subs_def by (auto dest!: map_of_SomeD)

lemma store_frame:
  "add_own_st n h self e = Some h' \<Longrightarrow> self \<in> W \<Longrightarrow> closed_under_subs h W \<Longrightarrow> writes_inside h h' W"
  "add_sub_st n h self key e = Some h' \<Longrightarrow> self \<in> W \<Longrightarrow> closed_under_subs h W \<Longrightarrow> writes_inside h h' W"
  "merge_st n h self other = Some h' \<Longrightarrow> self \<in> W \<Longrightarrow> closed_under_subs h W \<Longrightarrow> writes_inside h h' W"
  "merge_own_st n h self other i = Some h' \<Longrightarrow> self \<in> W \<Longrightarrow> closed_under_subs h W \<Longrightarrow> writes_inside h h' W"
  "merge_sub_st n h self items = Some h' \<Longrightarrow> self \<in> W \<Longrightarrow> closed_under_subs h W \<Longrightarrow> writes_inside h h' W"
proof (induction n h self e and n h self key e and n h self other and n h self other i
         and n h self items arbitrary: h' W and h' W and h' W and h' W and h' W
       rule: add_own_st_add_sub_st_merge_st_merge_own_st_merge_sub_st.induct)
  case (2 n h self e)
  show ?case
  proof (cases e)
    case (Plain c m)
    then show ?thesis using "2.prems" by (auto simp: writes_inside_own split: if_splits)
  next
    case (Ref other)
    then have "merge_st n h self other = Some h'" using "2.prems"(1) by simp
    then show ?thesis by (rule "2.IH"[OF Ref _ "2.prems"(2,3)])
  qed
next
  case (4 n h self key e)
  let ?h1 = "h @ [new_object]"
  let ?W1 = "W \<union> {length h..<length ?h1}"
  have sv: "self < length h" using "4.prems" by (simp split: if_splits)
  have f1: "writes_inside h ?h1 W" by (rule writes_inside_alloc) fact
  have c1: "closed_under_subs ?h1 ?W1" by (rule writes_inside_closed[OF f1])
  have s1: "self \<in> ?W1" using "4.prems" by simp
  have fr: "length h \<in> ?W1" by simp
  show ?case
  proof (cases "map_of (obj_sub_errors (?h1 ! self)) key")
    case (Some child)
    have cw: "child \<in> ?W1" by (rule children_inside[OF c1 s1 Some])
    have r: "add_own_st n ?h1 child e = Some h'"
      using "4.prems"(1) sv Some by (simp add: Let_def)
    have "writes_inside ?h1 h' ?W1"
      by (rule "4.IH"(2)[OF sv refl refl Some r cw c1])
    then show ?thesis using f1 writes_inside_trans by blast
  next
    case None
    let ?h2 = "?h1[self := (?h1 ! self)\<lparr>obj_sub_errors :=
                        obj_sub_errors (?h1 ! self) @ [(key, length h)]\<rparr>]"
    have f2: "writes_inside ?h1 ?h2 ?W1" by (rule writes_inside_link[OF c1 s1 fr])
    have c2: "closed_under_subs ?h2 ?W1" using writes_inside_closed[OF f2] by simp
    have r: "add_own_st n ?h2 (length h) e = Some h'"
      using "4.prems"(1) sv None by (simp add: Let_def)
    have "writes_inside ?h2 h' ?W1"
      by (rule "4.IH"(1)[OF sv refl refl None r fr c2])
    then have "writes_inside ?h1 h' ?W1"
      using f2 writes_inside_trans[of ?h1 ?h2 ?W1 h'] by simp
    then show ?thesis using f1 writes_inside_trans by blast
  qed
next
  case (6 n h self other)
  from "6.prems"(1) obtain h1 where
    m1: "merge_own_st n h self other 0 = Some h1"
    and ov: "other < length h1"
    and m2: "merge_sub_st n h1 self (obj_sub_errors (h1 ! other)) = Some h'"
    by (auto split: option.splits if_splits)
  have f1: "writes_inside h h1 W" by (rule "6.IH"(1)[OF m1 "6.prems"(2,3)])
  have "writes_inside h1 h' (W \<union> {length h..<length h1})"
    using "6.IH"(2)[OF m1 ov m2] "6.prems"(2) writes_inside_closed[OF f1] by simp
  then show ?case using f1 writes_inside_trans by blast
next
  case (8 n h self other i)
  show ?case
  proof (cases "i < length (obj_own_errors (h ! other))")
    case False
    then show ?thesis using "8.prems" by (auto simp: writes_inside_refl split: if_splits)
  next
    case True
    have ov: "other < length h" using "8.prems" by (simp split: if_splits)
    from "8.prems"(1) True ov obtain h1 where
      a1: "add_own_st n h self (obj_own_errors (h ! other) ! i) = Some h1"
      and a2: "merge_own_st n h1 self other (Suc i) = Some h'"
      by (auto split: option.splits)
    have f1: "writes_inside h h1 W" by (rule "8.IH"(1)[OF ov True a1 "8.prems"(2,3)])
    have "writes_inside h1 h' (W \<union> {length h..<length h1})"
      using "8.IH"(2)[OF ov True a1 a2] "8.prems"(2) writes_inside_closed[OF f1] by simp
    then show ?thesis using f1 writes_inside_trans by blast
  qed
next
  case (10 n h self items)
  show ?case
  proof (cases items)
    case Nil
    then show ?thesis using "10.prems" by (simp add: writes_inside_refl)
  next
    case (Cons x rest)
    obtain key sub where x: "x = (key, sub)" by (cases x)
    from "10.prems"(1) obtain h1 where
      a1: "add_sub_st n h self key (Ref sub) = Some h1"
      and a2: "merge_sub_st n h1 self rest = Some h'"
      by (auto simp: Cons x split: option.splits)
    have f1: "writes_inside h h1 W"
      using "10.IH"(1)[OF Cons x[symmetric] a1 "10.prems"(2,3)] .
    have "writes_inside h1 h' (W \<union> {length h..<length h1})"
      using "10.IH"(2)[OF Cons x[symmetric] a1 a2] "10.prems"(2) writes_inside_closed[OF f1] by simp
    then show ?thesis using f1 writes_inside_trans by blast
  qed
qed simp_all

text \<open>
  More fuel never hurts, and merging a finite tree into a separate receiver returns.
\<close>

lemmas store_simps =
  add_own_st.simps add_sub_st.simps merge_st.simps merge_own_st.simps merge_sub_st.simps

lemma fuel_Suc:
  "add_own_st n h self e = Some h' \<Longrightarrow> add_own_st (Suc n) h self e = Some h'"
  "add_sub_st n h self key e = Some h' \<Longrightarrow> add_sub_st (Suc n) h self key e = Some h'"
  "merge_st n h self other = Some h' \<Longrightarrow> merge_st (Suc n) h self other = Some h'"
  "merge_own_st n h self other i = Some h' \<Longrightarrow> merge_own_st (Suc n) h self other i = Some h'"
  "merge_sub_st n h self items = Some h' \<Longrightarrow> merge_sub_st (Suc n) h self items = Some h'"
proof (induction n h self e and n h self key e and n h self other and n h self other i
         and n h self items arbitrary: h' and h' and h' and h' and h'
       rule: add_own_st_add_sub_st_merge_st_merge_own_st_merge_sub_st.induct)
  case (2 n h self e)
  show ?case
  proof (cases e)
    case (Plain c m)
    then show ?thesis using "2.prems" by simp
  next
    case (Ref other)
    then have "merge_st n h self other = Some h'" using "2.prems" by simp
    then have "merge_st (Suc n) h self other = Some h'" by (rule "2.IH"[OF Ref])
    then show ?thesis
      unfolding add_own_st.simps(2)[of "Suc n"] by (simp add: Ref del: store_simps)
  qed
next
  case (4 n h self key e)
  let ?h1 = "h @ [new_object]"
  have sv: "self < length h" using "4.prems" by (simp split: if_splits)
  show ?case
  proof (cases "map_of (obj_sub_errors (?h1 ! self)) key")
    case (Some child)
    have "add_own_st n ?h1 child e = Some h'"
      using "4.prems" sv Some by (simp add: Let_def)
    then have "add_own_st (Suc n) ?h1 child e = Some h'"
      by (rule "4.IH"(2)[OF sv refl refl Some])
    then show ?thesis
      unfolding add_sub_st.simps(2)[of "Suc n"] using sv Some
      by (simp add: Let_def del: store_simps)
  next
    case None
    let ?h2 = "?h1[self := (?h1 ! self)\<lparr>obj_sub_errors :=
                        obj_sub_errors (?h1 ! self) @ [(key, length h)]\<rparr>]"
    have "add_own_st n ?h2 (length h) e = Some h'"
      using "4.prems" sv None by (simp add: Let_def)
    then have "add_own_st (Suc n) ?h2 (length h) e = Some h'"
      by (rule "4.IH"(1)[OF sv refl refl None])
    then show ?thesis
      unfolding add_sub_st.simps(2)[of "Suc n"] using sv None
      by (simp add: Let_def del: store_simps)
  qed
next
  case (6 n h self other)
  from "6.prems" obtain h1 where
    m1: "merge_own_st n h self other 0 = Some h1"
    and ov: "other < length h1"
    and m2: "merge_sub_st n h1 self (obj_sub_errors (h1 ! other)) = Some h'"
    by (auto split: option.splits if_splits)
  have "merge_own_st (Suc n) h self other 0 = Some h1" by (rule "6.IH"(1)[OF m1])
  moreover have "merge_sub_st (Suc n) h1 self (obj_sub_errors (h1 ! other)) = Some h'"
    by (rule "6.IH"(2)[OF m1 ov m2])
  ultimately show ?case
    unfolding merge_st.simps(2)[of "Suc n"] using ov by (simp del: store_simps)
next
  case (8 n h self other i)
  have ov: "other < length h" using "8.prems" by (simp split: if_splits)
  show ?case
  proof (cases "i < length (obj_own_errors (h ! other))")
    case False
    then have "h' = h" using "8.prems" ov by simp
    then show ?thesis
      unfolding merge_own_st.simps(2)[of "Suc n"] using ov False by (simp del: store_simps)
  next
    case True
    from "8.prems" True ov obtain h1 where
      a1: "add_own_st n h self (obj_own_errors (h ! other) ! i) = Some h1"
      and a2: "merge_own_st n h1 self other (Suc i) = Some h'"
      by (auto split: option.splits)
    have "add_own_st (Suc n) h self (obj_own_errors (h ! other) ! i) = Some h1"
      by (rule "8.IH"(1)[OF ov True a1])
    moreover have "merge_own_st (Suc n) h1 self other (Suc i) = Some h'"
      by (rule "8.IH"(2)[OF ov True a1 a2])
    ultimately show ?thesis
      unfolding merge_own_st.simps(2)[of "Suc n"] using ov True by (simp del: store_simps)
  qed
next
  case (10 n h self items)
  show ?case
  proof (cases items)
    case Nil
    then show ?thesis using "10.prems" by simp
  next
    case (Cons x rest)
    obtain key sub where x: "x = (key, sub)" by (cases x)
    from "10.prems" obtain h1 where
      a1: "add_sub_st n h self key (Ref sub) = Some h1"
      and a2: "merge_sub_st n h1 self rest = Some h'"
      by (auto simp: Cons x split: option.splits)
    have "add_sub_st (Suc n) h self key (Ref sub) = Some h1"
      by (rule "10.IH"(1)[OF Cons x[symmetric] a1])
    moreover have "merge_sub_st (Suc n) h1 self rest = Some h'"
      by (rule "10.IH"(2)[OF Cons x[symmetric] a1 a2])
    ultimately show ?thesis
      unfolding merge_sub_st.simps(2)[of "Suc n"] by (simp add: Cons x del: store_simps)
  qed
qed simp_all

lemma fuel_mono:
  assumes "n \<le> m"
  shows "add_own_st n h self e = Some h' \<Longrightarrow> add_own_st m h self e = Some h'"
    and "add_sub_st n h self key e = Some h' \<Longrightarrow> add_sub_st m h self key e = Some h'"
    and "merge_st n h self other = Some h' \<Longrightarrow> merge_st m h self other = Some h'"
    and "merge_own_st n h self other i = Some h' \<Longrightarrow> merge_own_st m h self other i = Some h'"
    and "merge_sub_st n h self items = Some h' \<Longrightarrow> merge_sub_st m h self items = Some h'"
  using assms by (induction m rule: dec_induct; simp only: fuel_Suc)+

lemma separate_step:
  assumes "writes_inside h h' W" "separate h W S"
  shows "separate h' (W \<union> {length h..<length h'}) S" and "\<forall>a\<in>S. h' ! a = h ! a"
proof -
  have S: "a < length h" "a \<notin> W" if "a \<in> S" for a
    using that assms(2) by (auto simp: separate_def closed_under_subs_def)
  show u: "\<forall>a\<in>S. h' ! a = h ! a"
    using assms(1) S by (auto simp: writes_inside_def)
  have l: "length h \<le> length h'" using assms(1) by (simp add: writes_inside_def)
  have "closed_under_subs h' S"
    using assms(2) u l unfolding separate_def closed_under_subs_def by fastforce
  moreover have "(W \<union> {length h..<length h'}) \<inter> S = {}"
    using assms(2) S by (fastforce simp: separate_def)
  ultimately show "separate h' (W \<union> {length h..<length h'}) S"
    using writes_inside_closed[OF assms(1)] by (simp add: separate_def)
qed

lemma plain_tree_unchanged:
  assumes "\<forall>a\<in>S. h' ! a = h ! a" "closed_under_subs h S" "length h \<le> length h'"
  shows "a \<in> S \<Longrightarrow> plain_tree d h' a = plain_tree d h a"
proof (induction d arbitrary: a)
  case 0
  then show ?case by simp
next
  case (Suc d)
  have a: "a < length h" "h' ! a = h ! a"
    and c: "\<forall>(key, c)\<in>set (obj_sub_errors (h ! a)). c \<in> S"
    using Suc.prems assms(1,2) by (auto simp: closed_under_subs_def)
  have "list_all (\<lambda>(key, c). plain_tree d h' c) (obj_sub_errors (h ! a))
          = list_all (\<lambda>(key, c). plain_tree d h c) (obj_sub_errors (h ! a))"
  proof -
    have "plain_tree d h' x = plain_tree d h x" if "(k, x) \<in> set (obj_sub_errors (h ! a))" for k x
      using that c Suc.IH[of x] by auto
    then show ?thesis unfolding list_all_iff by blast
  qed
  then show ?case using a assms(3) by simp
qed

lemma own_loop_returns:
  assumes "other < length h" "self < length h" "self \<noteq> other"
    and "list_all is_plain (obj_own_errors (h ! other))"
  shows "\<exists>fuel h'. merge_own_st fuel h self other i = Some h'"
  using assms
proof (induction "length (obj_own_errors (h ! other)) - i" arbitrary: h i)
  case 0
  then have "merge_own_st (Suc 0) h self other i = Some h" by simp
  then show ?case by blast
next
  case (Suc k)
  then have i: "i < length (obj_own_errors (h ! other))" by simp
  then have "is_plain (obj_own_errors (h ! other) ! i)"
    using Suc.prems(4) by (simp add: list_all_length)
  then obtain c m where e: "obj_own_errors (h ! other) ! i = Plain c m"
    by (cases "obj_own_errors (h ! other) ! i") auto
  define h1 where
    "h1 = h[self := (h ! self)\<lparr>obj_own_errors := obj_own_errors (h ! self) @ [Plain c m]\<rparr>]"
  have o1: "h1 ! other = h ! other" using Suc.prems(3) by (simp add: h1_def)
  have a1: "add_own_st (Suc f) h self (obj_own_errors (h ! other) ! i) = Some h1" for f
    using Suc.prems(2) by (simp add: e h1_def)
  have "\<exists>fuel h'. merge_own_st fuel h1 self other (Suc i) = Some h'"
  proof (rule Suc.hyps(1))
    show "k = length (obj_own_errors (h1 ! other)) - Suc i" using Suc.hyps(2) by (simp add: o1)
    show "other < length h1" "self < length h1" using Suc.prems by (simp_all add: h1_def)
    show "self \<noteq> other" by fact
    show "list_all is_plain (obj_own_errors (h1 ! other))" using Suc.prems(4) by (simp add: o1)
  qed
  then obtain f h' where r: "merge_own_st f h1 self other (Suc i) = Some h'" by blast
  have r': "merge_own_st (Suc f) h1 self other (Suc i) = Some h'" by (rule fuel_Suc(4)[OF r])
  have "merge_own_st (Suc (Suc f)) h self other i = Some h'"
    unfolding merge_own_st.simps(2)[of "Suc f"]
    using Suc.prems(1) i a1[of f] r' by (simp del: store_simps)
  then show ?case by blast
qed

lemma separate_self: "separate h W S \<Longrightarrow> self \<in> W \<Longrightarrow> self < length h"
  by (auto simp: separate_def closed_under_subs_def)

lemma sub_loop_returns:
  assumes IH: "\<And>h self other W. plain_tree d h other \<Longrightarrow> other \<in> S \<Longrightarrow> self \<in> W \<Longrightarrow>
                 separate h W S \<Longrightarrow> \<exists>fuel h'. merge_st fuel h self other = Some h'"
  shows "\<forall>(key, sub)\<in>set items. sub \<in> S \<and> plain_tree d h sub \<Longrightarrow> self \<in> W \<Longrightarrow>
         separate h W S \<Longrightarrow> \<exists>fuel h'. merge_sub_st fuel h self items = Some h'"
proof (induction items arbitrary: h W)
  case Nil
  have "merge_sub_st (Suc 0) h self [] = Some h" by simp
  then show ?case by blast
next
  case (Cons x rest)
  obtain key sub where x: "x = (key, sub)" by (cases x)
  have sub: "sub \<in> S" "plain_tree d h sub" using Cons.prems(1) by (auto simp: x)
  have sv: "self < length h" by (rule separate_self[OF Cons.prems(3,2)])
  have cW: "closed_under_subs h W" and cS: "closed_under_subs h S"
    using Cons.prems(3) by (simp_all add: separate_def)
  let ?h1 = "h @ [new_object]"
  let ?W1 = "W \<union> {length h..<length ?h1}"
  have f1: "writes_inside h ?h1 W" by (rule writes_inside_alloc[OF cW])
  have sep1: "separate ?h1 ?W1 S" and un1: "\<forall>a\<in>S. ?h1 ! a = h ! a"
    using separate_step[OF f1 Cons.prems(3)] by blast+
  have s1: "self \<in> ?W1" using Cons.prems(2) by simp
  have fr: "length h \<in> ?W1" by simp
  have c1: "closed_under_subs ?h1 ?W1" using sep1 by (simp add: separate_def)
  have "\<exists>fuel h3. add_sub_st fuel h self key (Ref sub) = Some h3"
  proof (cases "map_of (obj_sub_errors (?h1 ! self)) key")
    case (Some child)
    have cw: "child \<in> ?W1" by (rule children_inside[OF c1 s1 Some])
    have "plain_tree d ?h1 sub"
      using plain_tree_unchanged[OF un1 cS _ sub(1), of d] sub(2) by simp
    from IH[OF this sub(1) cw sep1] obtain f h3 where
      "merge_st f ?h1 child sub = Some h3" by blast
    then have "add_own_st (Suc f) ?h1 child (Ref sub) = Some h3" by simp
    then have "add_sub_st (Suc (Suc f)) h self key (Ref sub) = Some h3"
      unfolding add_sub_st.simps(2)[of "Suc f"] using sv Some
      by (simp add: Let_def del: store_simps)
    then show ?thesis by blast
  next
    case None
    let ?h2 = "?h1[self := (?h1 ! self)\<lparr>obj_sub_errors :=
                        obj_sub_errors (?h1 ! self) @ [(key, length h)]\<rparr>]"
    have f2: "writes_inside ?h1 ?h2 ?W1" by (rule writes_inside_link[OF c1 s1 fr])
    have sep2: "separate ?h2 ?W1 S" and un2: "\<forall>a\<in>S. ?h2 ! a = ?h1 ! a"
      using separate_step[OF f2 sep1] by simp_all
    have un: "\<forall>a\<in>S. ?h2 ! a = h ! a" using un1 un2 by simp
    have "plain_tree d ?h2 sub"
      using plain_tree_unchanged[OF un cS _ sub(1), of d] sub(2) by simp
    from IH[OF this sub(1) fr sep2] obtain f h3 where
      "merge_st f ?h2 (length h) sub = Some h3" by blast
    then have "add_own_st (Suc f) ?h2 (length h) (Ref sub) = Some h3" by simp
    then have "add_sub_st (Suc (Suc f)) h self key (Ref sub) = Some h3"
      unfolding add_sub_st.simps(2)[of "Suc f"] using sv None
      by (simp add: Let_def del: store_simps)
    then show ?thesis by blast
  qed
  then obtain f1 h3 where a1: "add_sub_st f1 h self key (Ref sub) = Some h3" by blast
  have f3: "writes_inside h h3 W" by (rule store_frame(2)[OF a1 Cons.prems(2) cW])
  have sep3: "separate h3 (W \<union> {length h..<length h3}) S" and un3: "\<forall>a\<in>S. h3 ! a = h ! a"
    using separate_step[OF f3 Cons.prems(3)] by blast+
  have l3: "length h \<le> length h3" using f3 by (simp add: writes_inside_def)
  have "\<exists>fuel h'. merge_sub_st fuel h3 self rest = Some h'"
  proof (rule Cons.IH[OF _ _ sep3])
    show "self \<in> W \<union> {length h..<length h3}" using Cons.prems(2) by simp
    show "\<forall>(key, sub)\<in>set rest. sub \<in> S \<and> plain_tree d h3 sub"
      using Cons.prems(1) plain_tree_unchanged[OF un3 cS l3, of _ d] by fastforce
  qed
  then obtain f2 h' where a2: "merge_sub_st f2 h3 self rest = Some h'" by blast
  define m where "m = max f1 f2"
  have "add_sub_st m h self key (Ref sub) = Some h3"
    by (rule fuel_mono(2)[OF _ a1]) (simp add: m_def)
  moreover have "merge_sub_st m h3 self rest = Some h'"
    by (rule fuel_mono(5)[OF _ a2]) (simp add: m_def)
  ultimately have "merge_sub_st (Suc m) h self (x # rest) = Some h'"
    by (simp add: x)
  then show ?case by blast
qed

lemma merge_st_returns:
  "plain_tree d h other \<Longrightarrow> other \<in> S \<Longrightarrow> self \<in> W \<Longrightarrow> separate h W S \<Longrightarrow>
   \<exists>fuel h'. merge_st fuel h self other = Some h'"
proof (induction d arbitrary: h self other W)
  case 0
  then show ?case by simp
next
  case (Suc d)
  have sv: "self < length h" by (rule separate_self[OF Suc.prems(4,3)])
  have ov: "other < length h" and pl: "list_all is_plain (obj_own_errors (h ! other))"
    and ch: "list_all (\<lambda>(key, c). plain_tree d h c) (obj_sub_errors (h ! other))"
    using Suc.prems(1) by simp_all
  have cW: "closed_under_subs h W" and cS: "closed_under_subs h S"
    using Suc.prems(4) by (simp_all add: separate_def)
  have ne: "self \<noteq> other" using Suc.prems(2,3,4) by (auto simp: separate_def)
  from own_loop_returns[OF ov sv ne pl, of 0] obtain f1 h1 where
    m1: "merge_own_st f1 h self other 0 = Some h1" by blast
  have fr1: "writes_inside h h1 W" by (rule store_frame(4)[OF m1 Suc.prems(3) cW])
  have sep1: "separate h1 (W \<union> {length h..<length h1}) S" and un1: "\<forall>a\<in>S. h1 ! a = h ! a"
    using separate_step[OF fr1 Suc.prems(4)] by blast+
  have l1: "length h \<le> length h1" using fr1 by (simp add: writes_inside_def)
  have o1: "h1 ! other = h ! other" using un1 Suc.prems(2) by simp
  have "\<exists>fuel h'. merge_sub_st fuel h1 self (obj_sub_errors (h1 ! other)) = Some h'"
  proof (rule sub_loop_returns[OF _ _ _ sep1, where d = d])
    show "self \<in> W \<union> {length h..<length h1}" using Suc.prems(3) by simp
    show "\<forall>(key, sub)\<in>set (obj_sub_errors (h1 ! other)). sub \<in> S \<and> plain_tree d h1 sub"
    proof -
      have "sub \<in> S \<and> plain_tree d h1 sub" if "(key, sub) \<in> set (obj_sub_errors (h ! other))"
        for key sub
      proof -
        have s: "sub \<in> S" using that cS Suc.prems(2) by (auto simp: closed_under_subs_def)
        have "plain_tree d h sub" using that ch by (auto simp: list_all_iff)
        then show ?thesis using plain_tree_unchanged[OF un1 cS l1 s, of d] s by simp
      qed
      then show ?thesis unfolding o1 by blast
    qed
    show "\<And>h self other W. plain_tree d h other \<Longrightarrow> other \<in> S \<Longrightarrow> self \<in> W \<Longrightarrow>
            separate h W S \<Longrightarrow> \<exists>fuel h'. merge_st fuel h self other = Some h'"
      by (rule Suc.IH)
  qed
  then obtain f2 h' where m2: "merge_sub_st f2 h1 self (obj_sub_errors (h1 ! other)) = Some h'"
    by blast
  define m where "m = max f1 f2"
  have "merge_own_st m h self other 0 = Some h1"
    by (rule fuel_mono(4)[OF _ m1]) (simp add: m_def)
  moreover have "merge_sub_st m h1 self (obj_sub_errors (h1 ! other)) = Some h'"
    by (rule fuel_mono(5)[OF _ m2]) (simp add: m_def)
  ultimately have "merge_st (Suc m) h self other = Some h'"
    using ov l1 by simp
  then show ?case by blast
qed

text \<open>
  A tree in the store: its objects exist and hold their children; it is the same tree in
  every store that has the same objects at its addresses; and it is untouched by a run that
  writes to another tree.
\<close>

lemma tree_at_inside:
  "tree_at h a v F \<Longrightarrow> a \<in> F \<and> (\<forall>x\<in>F. x < length h) \<and> closed_under_subs h F"
  "trees_at h cs vs F \<Longrightarrow>
     (\<forall>x\<in>F. x < length h) \<and> (\<forall>(k, c)\<in>set cs. c \<in> F) \<and> closed_under_subs h F
     \<and> map fst cs = map fst vs"
proof (induction rule: tree_at_trees_at.inducts)
  case (node a own subs F)
  then show ?case by (auto simp: closed_under_subs_def)
next
  case none
  then show ?case by (simp add: closed_under_subs_def)
next
  case (more c v F1 cs vs F2 k)
  then show ?case by (auto simp: closed_under_subs_def)
qed

lemma tree_at_frame:
  assumes "length h \<le> length h'"
  shows "tree_at h a v F \<Longrightarrow> (\<forall>x\<in>F. h' ! x = h ! x) \<Longrightarrow> tree_at h' a v F"
    and "trees_at h cs vs F \<Longrightarrow> (\<forall>x\<in>F. h' ! x = h ! x) \<Longrightarrow> trees_at h' cs vs F"
proof (induction rule: tree_at_trees_at.inducts)
  case (node a own subs F)
  then show ?case using assms by (auto intro!: tree_at_trees_at.node)
next
  case none
  show ?case by (rule tree_at_trees_at.none)
next
  case (more c v F1 cs vs F2 k)
  then show ?case by (auto intro!: tree_at_trees_at.more)
qed

lemma grows_refl: "grows h F h F"
  by (simp add: grows_def)

lemma grows_trans:
  assumes "grows h F h1 F1" "grows h1 F1 h2 F2"
  shows "grows h F h2 F2"
proof -
  have l: "length h \<le> length h1" "length h1 \<le> length h2"
    and s: "F \<subseteq> F1" "F1 \<subseteq> F2" "F1 \<subseteq> F \<union> {length h..<length h1}"
           "F2 \<subseteq> F1 \<union> {length h1..<length h2}"
    using assms by (simp_all add: grows_def)
  have "F2 \<subseteq> F \<union> {length h..<length h2}"
  proof
    fix x assume "x \<in> F2"
    then have "x \<in> F1 \<or> (length h1 \<le> x \<and> x < length h2)" using s(4) by auto
    then show "x \<in> F \<union> {length h..<length h2}" using s(3) l by auto
  qed
  moreover have "h2 ! x = h ! x" if "x < length h" "x \<notin> F" for x
  proof -
    have "x \<notin> F1" using that s(3) by auto
    then have "h2 ! x = h1 ! x" using assms(2) that l by (simp add: grows_def)
    then show ?thesis using assms(1) that by (simp add: grows_def)
  qed
  ultimately show ?thesis using l s by (simp add: grows_def)
qed

lemma tree_at_grows:
  assumes "grows h F h' F'" "G \<inter> F = {}"
  shows "tree_at h a v G \<Longrightarrow> tree_at h' a v G \<and> G \<inter> F' = {}"
    and "trees_at h cs vs G \<Longrightarrow> trees_at h' cs vs G \<and> G \<inter> F' = {}"
proof -
  have fr: "tree_at h' a v G \<and> G \<inter> F' = {}" if "\<forall>x\<in>G. x < length h" "tree_at h a v G" for a v
  proof -
    have "\<forall>x\<in>G. h' ! x = h ! x" using that(1) assms by (auto simp: grows_def)
    then have "tree_at h' a v G" using tree_at_frame(1)[OF _ that(2)] assms(1) by (simp add: grows_def)
    moreover have "G \<inter> F' = {}"
    proof -
      have "x \<notin> F'" if "x \<in> G" for x
      proof -
        have "x < length h" "x \<notin> F" using that \<open>\<forall>x\<in>G. x < length h\<close> assms(2) by auto
        moreover have "F' \<subseteq> F \<union> {length h..<length h'}" using assms(1) by (simp add: grows_def)
        ultimately show ?thesis by auto
      qed
      then show ?thesis by auto
    qed
    ultimately show ?thesis by simp
  qed
  show "tree_at h a v G \<Longrightarrow> tree_at h' a v G \<and> G \<inter> F' = {}"
    using fr tree_at_inside(1) by blast
  assume t: "trees_at h cs vs G"
  then have in_h: "\<forall>x\<in>G. x < length h" using tree_at_inside(2) by blast
  then have "\<forall>x\<in>G. h' ! x = h ! x" using assms by (auto simp: grows_def)
  then have "trees_at h' cs vs G" using tree_at_frame(2)[OF _ t] assms(1) by (simp add: grows_def)
  moreover have "G \<inter> F' = {}"
  proof -
    have "x \<notin> F'" if "x \<in> G" for x
    proof -
      have "x < length h" "x \<notin> F" using that in_h assms(2) by auto
      moreover have "F' \<subseteq> F \<union> {length h..<length h'}" using assms(1) by (simp add: grows_def)
      ultimately show ?thesis by auto
    qed
    then show ?thesis by auto
  qed
  ultimately show "trees_at h' cs vs G \<and> G \<inter> F' = {}" by simp
qed

text \<open>
  The first loop of \<open>merge\<close> appends the own list of the argument to that of the receiver,
  when the two are different objects.
\<close>

lemma own_loop_exact:
  assumes "other < length h" "self < length h" "self \<noteq> other"
    and "list_all is_plain (obj_own_errors (h ! other))"
  shows "\<exists>fuel. merge_own_st fuel h self other i
           = Some (h[self := (h ! self)\<lparr>obj_own_errors :=
                       obj_own_errors (h ! self) @ drop i (obj_own_errors (h ! other))\<rparr>])"
  using assms
proof (induction "length (obj_own_errors (h ! other)) - i" arbitrary: h i)
  case 0
  then have "merge_own_st (Suc 0) h self other i = Some h" by simp
  moreover have "h[self := (h ! self)\<lparr>obj_own_errors :=
                   obj_own_errors (h ! self) @ drop i (obj_own_errors (h ! other))\<rparr>] = h"
    using 0 by simp
  ultimately show ?case by metis
next
  case (Suc k)
  let ?es = "obj_own_errors (h ! other)"
  have i: "i < length ?es" using Suc.hyps(2) by simp
  then have "is_plain (?es ! i)" using Suc.prems(4) by (simp add: list_all_length)
  then obtain c m where e: "?es ! i = Plain c m" by (cases "?es ! i") auto
  define h1 where
    "h1 = h[self := (h ! self)\<lparr>obj_own_errors := obj_own_errors (h ! self) @ [Plain c m]\<rparr>]"
  have o1: "h1 ! other = h ! other" using Suc.prems(3) by (simp add: h1_def)
  have s1: "h1 ! self = (h ! self)\<lparr>obj_own_errors := obj_own_errors (h ! self) @ [Plain c m]\<rparr>"
    using Suc.prems(2) by (simp add: h1_def)
  have a1: "add_own_st (Suc f) h self (?es ! i) = Some h1" for f
    using Suc.prems(2) by (simp add: e h1_def)
  have "\<exists>fuel. merge_own_st fuel h1 self other (Suc i)
          = Some (h1[self := (h1 ! self)\<lparr>obj_own_errors :=
                    obj_own_errors (h1 ! self) @ drop (Suc i) (obj_own_errors (h1 ! other))\<rparr>])"
  proof (rule Suc.hyps(1))
    show "k = length (obj_own_errors (h1 ! other)) - Suc i" using Suc.hyps(2) by (simp add: o1)
    show "other < length h1" "self < length h1" using Suc.prems by (simp_all add: h1_def)
    show "self \<noteq> other" by fact
    show "list_all is_plain (obj_own_errors (h1 ! other))" using Suc.prems(4) by (simp add: o1)
  qed
  then obtain f where r: "merge_own_st f h1 self other (Suc i)
          = Some (h1[self := (h1 ! self)\<lparr>obj_own_errors :=
                    obj_own_errors (h1 ! self) @ drop (Suc i) (obj_own_errors (h1 ! other))\<rparr>])"
    by blast
  have d: "[Plain c m] @ drop (Suc i) ?es = drop i ?es"
    using Cons_nth_drop_Suc[OF i] e by simp
  have eq: "h1[self := (h1 ! self)\<lparr>obj_own_errors :=
                    obj_own_errors (h1 ! self) @ drop (Suc i) (obj_own_errors (h1 ! other))\<rparr>]
            = h[self := (h ! self)\<lparr>obj_own_errors := obj_own_errors (h ! self) @ drop i ?es\<rparr>]"
    unfolding o1 s1 using d by (simp add: h1_def)
  have r': "merge_own_st (Suc f) h1 self other (Suc i)
              = Some (h[self := (h ! self)\<lparr>obj_own_errors := obj_own_errors (h ! self) @ drop i ?es\<rparr>])"
    using fuel_Suc(4)[OF r] by (simp only: eq)
  have "merge_own_st (Suc (Suc f)) h self other i
          = Some (h[self := (h ! self)\<lparr>obj_own_errors := obj_own_errors (h ! self) @ drop i ?es\<rparr>])"
    unfolding merge_own_st.simps(2)[of "Suc f"]
    using Suc.prems(1) i a1[of f] r' by (simp del: store_simps)
  then show ?case by blast
qed

lemma tree_at_own_update:
  assumes "tree_at h n (NestedException own subs) Fn" "list_all2 same_exc es own'"
  shows "tree_at (h[n := (h ! n)\<lparr>obj_own_errors := es\<rparr>]) n (NestedException own' subs) Fn"
    and "grows h Fn (h[n := (h ! n)\<lparr>obj_own_errors := es\<rparr>]) Fn"
proof -
  let ?h' = "h[n := (h ! n)\<lparr>obj_own_errors := es\<rparr>]"
  from assms(1) obtain F0 where
    n: "n < length h" and t: "trees_at h (obj_sub_errors (h ! n)) subs F0"
    and nf: "n \<notin> F0" and F: "Fn = insert n F0"
    by (auto elim: tree_at_nodeE)
  have "?h' ! x = h ! x" if "x \<in> F0" for x
    using that nf by (intro nth_list_update_neq) auto
  then have "trees_at ?h' (obj_sub_errors (h ! n)) subs F0"
    using tree_at_frame(2)[OF _ t, of ?h'] by simp
  then show "tree_at ?h' n (NestedException own' subs) Fn"
    unfolding F using n nf assms(2) by (intro tree_at_trees_at.node) simp_all
  have "?h' ! x = h ! x" if "x \<notin> Fn" for x
    using that F by (intro nth_list_update_neq) auto
  then show "grows h Fn ?h' Fn"
    unfolding grows_def by simp
qed

lemma same_exc_plain: "list_all2 same_exc es own \<Longrightarrow> list_all is_plain es \<and> list_all is_Leaf own"
proof (induction rule: list_all2_induct)
  case Nil
  then show ?case by simp
next
  case (Cons x xs y ys)
  then show ?case by (cases x; cases y) auto
qed

lemma add_own_plain_refines:
  assumes "tree_at h n vn Fn"
  shows "\<exists>h'. add_own_st (Suc k) h n (Plain c m) = Some h'
            \<and> tree_at h' n (add_own vn (Leaf c m)) Fn \<and> grows h Fn h' Fn"
proof -
  obtain own subs where v: "vn = NestedException own subs" by (cases vn)
  let ?es = "obj_own_errors (h ! n) @ [Plain c m]"
  have n: "n < length h" and o: "list_all2 same_exc (obj_own_errors (h ! n)) own"
    using assms unfolding v by (auto elim: tree_at_nodeE)
  have "list_all2 same_exc ?es (own @ [Leaf c m])"
    using o by (simp add: list_all2_appendI)
  from tree_at_own_update[OF assms[unfolded v] this] n show ?thesis
    by (simp add: v)
qed

lemma trees_at_snoc:
  "trees_at h cs vs F \<Longrightarrow> tree_at h c v F1 \<Longrightarrow> F \<inter> F1 = {} \<Longrightarrow>
   trees_at h (cs @ [(k, c)]) (vs @ [(k, v)]) (F \<union> F1)"
proof (induction cs arbitrary: vs F)
  case Nil
  then have "vs = []" "F = {}" by (auto elim: trees_at_nilE)
  moreover have "trees_at h [(k, c)] [(k, v)] (F1 \<union> {})"
    by (rule tree_at_trees_at.more[OF Nil.prems(2) tree_at_trees_at.none]) simp
  ultimately show ?case by simp
next
  case (Cons x cs)
  from Cons.prems(1) obtain k' c' v' vs' G1 G2 where
    x: "x = (k', c')" and vs: "vs = (k', v') # vs'" and F: "F = G1 \<union> G2"
    and t1: "tree_at h c' v' G1" and t2: "trees_at h cs vs' G2" and d: "G1 \<inter> G2 = {}"
    by (auto elim: trees_at_consE)
  have "trees_at h (cs @ [(k, c)]) (vs' @ [(k, v)]) (G2 \<union> F1)"
    by (rule Cons.IH[OF t2 Cons.prems(2)]) (use Cons.prems(3) F in auto)
  then have "trees_at h ((k', c') # (cs @ [(k, c)])) ((k', v') # (vs' @ [(k, v)])) (G1 \<union> (G2 \<union> F1))"
    by (rule tree_at_trees_at.more[OF t1]) (use d Cons.prems(3) F in auto)
  then show ?case by (simp add: x vs F Un_assoc)
qed

lemma trees_at_update:
  "trees_at h cs vs F \<Longrightarrow> map_of cs key = Some c \<Longrightarrow>
   \<exists>v Fc. map_of vs key = Some v \<and> tree_at h c v Fc \<and> Fc \<subseteq> F
     \<and> (\<forall>h' v' Fc'. length h \<le> length h' \<longrightarrow> (\<forall>x\<in>F - Fc. h' ! x = h ! x) \<longrightarrow>
           tree_at h' c v' Fc' \<longrightarrow> Fc' \<inter> (F - Fc) = {} \<longrightarrow>
           trees_at h' cs (store vs key v') (Fc' \<union> (F - Fc)))"
proof (induction cs arbitrary: vs F)
  case Nil
  then show ?case by simp
next
  case (Cons x cs)
  from Cons.prems(1) obtain k' c' v1 vs' G1 G2 where
    x: "x = (k', c')" and vs: "vs = (k', v1) # vs'" and F: "F = G1 \<union> G2"
    and t1: "tree_at h c' v1 G1" and t2: "trees_at h cs vs' G2" and d: "G1 \<inter> G2 = {}"
    by (auto elim: trees_at_consE)
  show ?case
  proof (cases "k' = key")
    case True
    then have c: "c = c'" using Cons.prems(2) by (simp add: x)
    have rest: "F - G1 = G2" using d F by auto
    have "trees_at h' (x # cs) (store vs key v') (Fc' \<union> (F - G1))"
      if "length h \<le> length h'" "\<forall>x\<in>F - G1. h' ! x = h ! x" "tree_at h' c v' Fc'"
         "Fc' \<inter> (F - G1) = {}"
      for h' v' Fc'
      using tree_at_trees_at.more[OF that(3)[unfolded c]
              tree_at_frame(2)[OF that(1) t2 that(2)[unfolded rest]] that(4)[unfolded rest], of k']
      by (simp add: x vs True rest)
    moreover have "map_of vs key = Some v1" "tree_at h c v1 G1" "G1 \<subseteq> F"
      using True t1 F by (simp_all add: vs c)
    ultimately show ?thesis by blast
  next
    case False
    then have "map_of cs key = Some c" using Cons.prems(2) by (simp add: x)
    from Cons.IH[OF t2 this] obtain v Fc where
      m: "map_of vs' key = Some v" and tc: "tree_at h c v Fc" and sub: "Fc \<subseteq> G2"
      and up: "\<And>h' v' Fc'. length h \<le> length h' \<Longrightarrow> (\<forall>x\<in>G2 - Fc. h' ! x = h ! x) \<Longrightarrow>
           tree_at h' c v' Fc' \<Longrightarrow> Fc' \<inter> (G2 - Fc) = {} \<Longrightarrow>
           trees_at h' cs (store vs' key v') (Fc' \<union> (G2 - Fc))"
      by blast
    have rest: "F - Fc = G1 \<union> (G2 - Fc)" using d F sub by auto
    have "trees_at h' ((k', c') # cs) (store vs key v') (Fc' \<union> (F - Fc))"
      if a: "length h \<le> length h'" "\<forall>x\<in>F - Fc. h' ! x = h ! x" "tree_at h' c v' Fc'"
            "Fc' \<inter> (F - Fc) = {}"
      for h' v' Fc'
    proof -
      have t1': "tree_at h' c' v1 G1"
        by (rule tree_at_frame(1)[OF a(1) t1]) (use a(2) rest in auto)
      have t2': "trees_at h' cs (store vs' key v') (Fc' \<union> (G2 - Fc))"
        by (rule up[OF a(1) _ a(3)]) (use a(2,4) rest in auto)
      have "G1 \<inter> (Fc' \<union> (G2 - Fc)) = {}" using a(4) rest d by auto
      from tree_at_trees_at.more[OF t1' t2' this, of k']
      have "trees_at h' ((k', c') # cs) ((k', v1) # store vs' key v') (G1 \<union> (Fc' \<union> (G2 - Fc)))" .
      moreover have "G1 \<union> (Fc' \<union> (G2 - Fc)) = Fc' \<union> (F - Fc)" using rest by auto
      ultimately show ?thesis using False by (simp add: vs)
    qed
    then show ?thesis
      using False m tc sub F by (intro exI[of _ v] exI[of _ Fc]) (auto simp: vs x)
  qed
qed

lemma exc_at_inside: "exc_at h e ev F \<Longrightarrow> \<forall>x\<in>F. x < length h"
  by (auto elim!: exc_at.cases dest: tree_at_inside(1))

lemma exc_at_frame:
  "length h \<le> length h' \<Longrightarrow> exc_at h e ev F \<Longrightarrow> (\<forall>x\<in>F. h' ! x = h ! x) \<Longrightarrow> exc_at h' e ev F"
  by (auto elim!: exc_at.cases intro: exc_at.intros tree_at_frame(1))

lemma map_of_None_keys:
  "map fst cs = map fst vs \<Longrightarrow> map_of cs k = None \<Longrightarrow> map_of vs k = None"
  by (metis map_of_eq_None_iff set_map)

lemma tree_at_new:
  assumes "a < length h" "h ! a = new_object"
  shows "tree_at h a (NestedException [] []) {a}"
proof -
  have "tree_at h a (NestedException [] []) (insert a {})"
    by (rule tree_at_trees_at.node) (use assms in \<open>simp_all add: new_object_def tree_at_trees_at.none\<close>)
  then show ?thesis by simp
qed

lemma add_sub_refines:
  assumes AO: "\<And>h n vn Fn. exc_at h e ev Fe \<Longrightarrow> tree_at h n vn Fn \<Longrightarrow> Fn \<inter> Fe = {} \<Longrightarrow>
                 \<exists>k h' F'. add_own_st k h n e = Some h' \<and> tree_at h' n (add_own vn ev) F'
                           \<and> grows h Fn h' F'"
    and e: "exc_at h e ev Fe" and t: "tree_at h n vn Fn" and d: "Fn \<inter> Fe = {}"
  shows "\<exists>k h' F'. add_sub_st k h n key e = Some h' \<and> tree_at h' n (add_sub vn key ev) F'
                   \<and> grows h Fn h' F'"
proof -
  obtain own subs where v: "vn = NestedException own subs" by (cases vn)
  let ?cs = "obj_sub_errors (h ! n)"
  from t obtain F0 where
    n: "n < length h" and o: "list_all2 same_exc (obj_own_errors (h ! n)) own"
    and ts: "trees_at h ?cs subs F0" and nf: "n \<notin> F0" and F: "Fn = insert n F0"
    unfolding v by (auto elim: tree_at_nodeE)
  have F0h: "\<forall>x\<in>F0. x < length h" and keys: "map fst ?cs = map fst subs"
    using tree_at_inside(2)[OF ts] by simp_all
  have Feh: "\<forall>x\<in>Fe. x < length h" by (rule exc_at_inside[OF e])
  have nFe: "n \<notin> Fe" using d F by auto
  define h1 where "h1 = h @ [new_object]"
  have l1: "length h \<le> length h1" and l1': "length h1 = Suc (length h)" by (simp_all add: h1_def)
  have n1: "h1 ! n = h ! n" using n by (simp add: nth_append h1_def)
  have same1: "h1 ! x = h ! x" if "x < length h" for x using that by (simp add: nth_append h1_def)
  show ?thesis
  proof (cases "map_of (obj_sub_errors (h1 ! n)) key")
    case None
    define h2 where
      "h2 = h1[n := (h1 ! n)\<lparr>obj_sub_errors := obj_sub_errors (h1 ! n) @ [(key, length h)]\<rparr>]"
    have l2: "length h2 = Suc (length h)" by (simp add: h2_def h1_def)
    have same2: "h2 ! x = h ! x" if "x < length h" "x \<noteq> n" for x
      using that by (simp add: nth_append h2_def h1_def)
    have n2: "h2 ! n = (h ! n)\<lparr>obj_sub_errors := ?cs @ [(key, length h)]\<rparr>"
      using n by (simp add: nth_append h2_def h1_def)
    have f2: "h2 ! length h = new_object" using n by (simp add: nth_append h2_def h1_def)
    have tf: "tree_at h2 (length h) (NestedException [] []) {length h}"
      by (rule tree_at_new) (simp_all add: f2 l2)
    have e2: "exc_at h2 e ev Fe"
      by (rule exc_at_frame[OF _ e]) (use Feh nFe same2 l2 in auto)
    have "{length h} \<inter> Fe = {}" using Feh by auto
    from AO[OF e2 tf this] obtain k h3 F3 where
      r: "add_own_st k h2 (length h) e = Some h3"
      and t3: "tree_at h3 (length h) (add_own (NestedException [] []) ev) F3"
      and g3: "grows h2 {length h} h3 F3"
      by blast
    have l3: "Suc (length h) \<le> length h3" using g3 by (simp add: grows_def l2)
    have F3: "F3 \<subseteq> {length h..<length h3}" using g3 l3 by (auto simp: grows_def l2)
    have same3: "h3 ! x = h2 ! x" if "x < length h" for x
      using that g3 by (simp add: grows_def l2)
    have run: "add_sub_st (Suc k) h n key e = Some h3"
      using n None r unfolding h2_def h1_def by (simp add: Let_def)
    have val: "add_sub vn key ev
                 = NestedException own (subs @ [(key, add_own (NestedException [] []) ev)])"
      using map_of_None_keys[OF keys None[unfolded n1]] by (simp add: add_sub_cases v del: add_sub.simps)
    have ts3: "trees_at h3 ?cs subs F0"
      by (rule tree_at_frame(2)[OF _ ts]) (use l3 F0h nf same2 same3 in auto)
    have "F0 \<inter> F3 = {}" using F0h F3 by fastforce
    from trees_at_snoc[OF ts3 t3 this, of key]
    have ts3': "trees_at h3 (?cs @ [(key, length h)])
                  (subs @ [(key, add_own (NestedException [] []) ev)]) (F0 \<union> F3)" .
    have n3: "h3 ! n = (h ! n)\<lparr>obj_sub_errors := ?cs @ [(key, length h)]\<rparr>"
      using same3[OF n] n2 by simp
    have nin: "n \<notin> F0 \<union> F3" using nf F3 n by auto
    have "tree_at h3 n (NestedException own (subs @ [(key, add_own (NestedException [] []) ev)]))
            (insert n (F0 \<union> F3))"
      by (rule tree_at_trees_at.node) (use n l3 o ts3' nin in \<open>simp_all add: n3\<close>)
    moreover have "grows h Fn h3 (insert n (F0 \<union> F3))"
      unfolding grows_def using l3 F3 same3 same2 F by auto
    ultimately show ?thesis using run val by metis
  next
    case (Some child)
    have ts1: "trees_at h1 ?cs subs F0"
      by (rule tree_at_frame(2)[OF l1 ts]) (use F0h same1 in auto)
    from trees_at_update[OF ts1 Some[unfolded n1]] obtain vc Fc where
      m: "map_of subs key = Some vc" and tc: "tree_at h1 child vc Fc" and sub: "Fc \<subseteq> F0"
      and up: "\<And>h' v' Fc'. length h1 \<le> length h' \<Longrightarrow> (\<forall>x\<in>F0 - Fc. h' ! x = h1 ! x) \<Longrightarrow>
           tree_at h' child v' Fc' \<Longrightarrow> Fc' \<inter> (F0 - Fc) = {} \<Longrightarrow>
           trees_at h' ?cs (store subs key v') (Fc' \<union> (F0 - Fc))"
      by blast
    have e1: "exc_at h1 e ev Fe"
      by (rule exc_at_frame[OF l1 e]) (use Feh same1 in auto)
    have "Fc \<inter> Fe = {}" using sub d F by auto
    from AO[OF e1 tc this] obtain k h3 F3 where
      r: "add_own_st k h1 child e = Some h3"
      and t3: "tree_at h3 child (add_own vc ev) F3"
      and g3: "grows h1 Fc h3 F3"
      by blast
    have l3: "Suc (length h) \<le> length h3" using g3 by (simp add: grows_def l1')
    have F3: "Fc \<subseteq> F3" "F3 \<subseteq> Fc \<union> {Suc (length h)..<length h3}"
      using g3 by (simp_all add: grows_def l1')
    have same3: "h3 ! x = h ! x" if "x < length h" "x \<notin> Fc" for x
    proof -
      have "h3 ! x = h1 ! x" using that g3 by (simp add: grows_def l1')
      then show ?thesis using same1[OF that(1)] by simp
    qed
    have run: "add_sub_st (Suc k) h n key e = Some h3"
      using n Some r unfolding h1_def by (simp add: Let_def)
    have val: "add_sub vn key ev = NestedException own (store subs key (add_own vc ev))"
      using m by (simp add: add_sub_cases v del: add_sub.simps)
    have ts3: "trees_at h3 ?cs (store subs key (add_own vc ev)) (F3 \<union> (F0 - Fc))"
    proof (rule up[OF _ _ t3])
      show "length h1 \<le> length h3" using l3 by (simp add: l1')
      show "\<forall>x\<in>F0 - Fc. h3 ! x = h1 ! x" using F0h same3 same1 by auto
      show "F3 \<inter> (F0 - Fc) = {}" using F3 F0h by fastforce
    qed
    have nFc: "n \<notin> Fc" using nf sub by auto
    have n3: "h3 ! n = h ! n" by (rule same3[OF n nFc])
    have nin: "n \<notin> F3 \<union> (F0 - Fc)" using nf nFc F3 n by auto
    have "tree_at h3 n (NestedException own (store subs key (add_own vc ev)))
            (insert n (F3 \<union> (F0 - Fc)))"
      by (rule tree_at_trees_at.node) (use n l3 o ts3 nin in \<open>simp_all add: n3\<close>)
    moreover have "grows h Fn h3 (insert n (F3 \<union> (F0 - Fc)))"
      unfolding grows_def using l3 F3 same3 F sub by auto
    ultimately show ?thesis using run val by metis
  qed
qed

text \<open>
  The methods on the store and the functions on values agree: when the receiver and the
  argument are trees that share no object, the call returns, and the receiver is then the
  tree that the function on values computes.
\<close>

lemma merge_sub_refines:
  assumes R: "\<And>v h n vn Fn c Fc. v \<in> snd ` set vs0 \<Longrightarrow> tree_at h c v Fc \<Longrightarrow>
                tree_at h n vn Fn \<Longrightarrow> Fn \<inter> Fc = {} \<Longrightarrow>
                \<exists>k h' F'. merge_st k h n c = Some h' \<and> tree_at h' n (merge vn v) F'
                          \<and> grows h Fn h' F'"
  shows "set vs \<subseteq> set vs0 \<Longrightarrow> trees_at h cs vs Fc \<Longrightarrow> tree_at h n vn Fn \<Longrightarrow> Fn \<inter> Fc = {} \<Longrightarrow>
         \<exists>k h' F'. merge_sub_st k h n cs = Some h' \<and> tree_at h' n (merge_sub vn vs) F'
                   \<and> grows h Fn h' F'"
proof (induction cs arbitrary: vs Fc h n vn Fn)
  case Nil
  then have "vs = []" by (auto elim: trees_at_nilE)
  moreover have "merge_sub_st (Suc 0) h n [] = Some h" by simp
  ultimately show ?case using Nil.prems(3) grows_refl by (metis merge_sub.simps(1))
next
  case (Cons x cs)
  from Cons.prems(2) obtain key c v vs' G1 G2 where
    x: "x = (key, c)" and vs: "vs = (key, v) # vs'" and F: "Fc = G1 \<union> G2"
    and t1: "tree_at h c v G1" and t2: "trees_at h cs vs' G2" and d: "G1 \<inter> G2 = {}"
    by (auto elim: trees_at_consE)
  have vin: "v \<in> snd ` set vs0" using Cons.prems(1) vs by force
  have AO: "\<exists>k h' F'. add_own_st k h n (Ref c) = Some h' \<and> tree_at h' n (add_own vn (Nested v)) F'
                     \<and> grows h Fn h' F'"
    if "exc_at h (Ref c) (Nested v) G1" "tree_at h n vn Fn" "Fn \<inter> G1 = {}" for h n vn Fn
  proof -
    have "tree_at h c v G1" using that(1) by (auto elim: exc_at_refE)
    from R[OF vin this that(2,3)] obtain k h' F' where
      "merge_st k h n c = Some h'" "tree_at h' n (merge vn v) F'" "grows h Fn h' F'" by blast
    then have "add_own_st (Suc k) h n (Ref c) = Some h' \<and> tree_at h' n (add_own vn (Nested v)) F'
                 \<and> grows h Fn h' F'" by simp
    then show ?thesis by blast
  qed
  have "\<exists>k h' F'. add_sub_st k h n key (Ref c) = Some h'
          \<and> tree_at h' n (add_sub vn key (Nested v)) F' \<and> grows h Fn h' F'"
    by (rule add_sub_refines[OF AO exc_at.tree[OF t1] Cons.prems(3)])
       (use Cons.prems(4) F in auto)
  then obtain k1 h1 F1 where
    r1: "add_sub_st k1 h n key (Ref c) = Some h1"
    and n1: "tree_at h1 n (add_sub vn key (Nested v)) F1" and g1: "grows h Fn h1 F1"
    by blast
  have "G2 \<inter> Fn = {}" using Cons.prems(4) F by auto
  from tree_at_grows(2)[OF g1 this t2] have t2': "trees_at h1 cs vs' G2" and d2: "F1 \<inter> G2 = {}"
    by auto
  have "set vs' \<subseteq> set vs0" using Cons.prems(1) vs by auto
  from Cons.IH[OF this t2' n1 d2] obtain k2 h2 F2 where
    r2: "merge_sub_st k2 h1 n cs = Some h2"
    and n2: "tree_at h2 n (merge_sub (add_sub vn key (Nested v)) vs') F2"
    and g2: "grows h1 F1 h2 F2"
    by blast
  define m where "m = max k1 k2"
  have "add_sub_st m h n key (Ref c) = Some h1"
    by (rule fuel_mono(2)[OF _ r1]) (simp add: m_def)
  moreover have "merge_sub_st m h1 n cs = Some h2"
    by (rule fuel_mono(5)[OF _ r2]) (simp add: m_def)
  ultimately have "merge_sub_st (Suc m) h n (x # cs) = Some h2" by (simp add: x)
  moreover have "tree_at h2 n (merge_sub vn vs) F2"
    using n2 by (simp add: vs del: add_sub.simps)
  moreover have "grows h Fn h2 F2" by (rule grows_trans[OF g1 g2])
  ultimately show ?case by blast
qed

lemma merge_refines:
  "tree_at h t vt Ft \<Longrightarrow> tree_at h n vn Fn \<Longrightarrow> Fn \<inter> Ft = {} \<Longrightarrow>
   \<exists>k h' F'. merge_st k h n t = Some h' \<and> tree_at h' n (merge vn vt) F' \<and> grows h Fn h' F'"
proof (induction vt arbitrary: h t Ft n vn Fn rule: nested_children_induct)
  case (NestedException ownt subst)
  from NestedException.prems(1) obtain Ft0 where
    t: "t < length h" and ot: "list_all2 same_exc (obj_own_errors (h ! t)) ownt"
    and tst: "trees_at h (obj_sub_errors (h ! t)) subst Ft0" and tf: "t \<notin> Ft0"
    and Ft: "Ft = insert t Ft0"
    by (auto elim: tree_at_nodeE)
  obtain ownn subsn where vn: "vn = NestedException ownn subsn" by (cases vn)
  have tn: "tree_at h n (NestedException ownn subsn) Fn"
    using NestedException.prems(2) by (simp add: vn)
  have n: "n < length h" and on: "list_all2 same_exc (obj_own_errors (h ! n)) ownn"
    and nFn: "n \<in> Fn"
    using tn by (auto elim: tree_at_nodeE)
  have ne: "n \<noteq> t" using nFn Ft NestedException.prems(3) by auto
  have pl: "list_all is_plain (obj_own_errors (h ! t))" and lf: "list_all is_Leaf ownt"
    using same_exc_plain[OF ot] by simp_all
  define h1 where
    "h1 = h[n := (h ! n)\<lparr>obj_own_errors := obj_own_errors (h ! n) @ obj_own_errors (h ! t)\<rparr>]"
  from own_loop_exact[OF t n ne pl, of 0] obtain k1 where
    r1: "merge_own_st k1 h n t 0 = Some h1" by (auto simp: h1_def)
  have "list_all2 same_exc (obj_own_errors (h ! n) @ obj_own_errors (h ! t)) (ownn @ ownt)"
    using on ot by (rule list_all2_appendI)
  from tree_at_own_update[OF tn this]
  have n1: "tree_at h1 n (NestedException (ownn @ ownt) subsn) Fn" and g1: "grows h Fn h1 Fn"
    by (simp_all add: h1_def)
  have t1: "h1 ! t = h ! t" and l1: "t < length h1" using ne t by (simp_all add: h1_def)
  have "Ft0 \<inter> Fn = {}" using NestedException.prems(3) Ft by auto
  from tree_at_grows(2)[OF g1 this tst]
  have tst1: "trees_at h1 (obj_sub_errors (h1 ! t)) subst Ft0" and d1: "Fn \<inter> Ft0 = {}"
    by (auto simp: t1)
  have "\<exists>k h' F'. merge_sub_st k h1 n (obj_sub_errors (h1 ! t)) = Some h'
          \<and> tree_at h' n (merge_sub (NestedException (ownn @ ownt) subsn) subst) F'
          \<and> grows h1 Fn h' F'"
  proof (rule merge_sub_refines[OF _ subset_refl tst1 n1 d1])
    fix v h n vn Fn c Fc
    assume "v \<in> snd ` set subst" and a: "tree_at h c v Fc" "tree_at h n vn Fn" "Fn \<inter> Fc = {}"
    then obtain key where "(key, v) \<in> set subst" by auto
    from NestedException.IH[OF this a]
    show "\<exists>k h' F'. merge_st k h n c = Some h' \<and> tree_at h' n (merge vn v) F' \<and> grows h Fn h' F'" .
  qed
  then obtain k2 h2 F2 where
    r2: "merge_sub_st k2 h1 n (obj_sub_errors (h1 ! t)) = Some h2"
    and n2: "tree_at h2 n (merge_sub (NestedException (ownn @ ownt) subsn) subst) F2"
    and g2: "grows h1 Fn h2 F2"
    by blast
  define m where "m = max k1 k2"
  have "merge_own_st m h n t 0 = Some h1"
    by (rule fuel_mono(4)[OF _ r1]) (simp add: m_def)
  moreover have "merge_sub_st m h1 n (obj_sub_errors (h1 ! t)) = Some h2"
    by (rule fuel_mono(5)[OF _ r2]) (simp add: m_def)
  ultimately have "merge_st (Suc m) h n t = Some h2" using l1 by simp
  moreover have "merge vn (NestedException ownt subst)
                   = merge_sub (NestedException (ownn @ ownt) subsn) subst"
    by (simp add: vn merge_own_leaves[OF lf])
  moreover have "grows h Fn h2 F2" by (rule grows_trans[OF g1 g2])
  ultimately show ?case using n2 by metis
qed

lemma add_own_refines:
  assumes "exc_at h e ev Fe" "tree_at h n vn Fn" "Fn \<inter> Fe = {}"
  shows "\<exists>k h' F'. add_own_st k h n e = Some h' \<and> tree_at h' n (add_own vn ev) F'
                   \<and> grows h Fn h' F'"
  using assms(1)
proof (cases rule: exc_at.cases)
  case (plain c m)
  then show ?thesis using add_own_plain_refines[OF assms(2), of 0 c m] by blast
next
  case (tree a v)
  from merge_refines[OF tree(3) assms(2)] assms(3) obtain k h' F' where
    "merge_st k h n a = Some h'" "tree_at h' n (merge vn v) F'" "grows h Fn h' F'"
    by blast
  then have "add_own_st (Suc k) h n e = Some h' \<and> tree_at h' n (add_own vn ev) F'
               \<and> grows h Fn h' F'"
    by (simp add: tree)
  then show ?thesis by blast
qed

lemma add_sub_refines_any:
  assumes "exc_at h e ev Fe" "tree_at h n vn Fn" "Fn \<inter> Fe = {}"
  shows "\<exists>k h' F'. add_sub_st k h n key e = Some h' \<and> tree_at h' n (add_sub vn key ev) F'
                   \<and> grows h Fn h' F'"
  by (rule add_sub_refines[OF add_own_refines assms])

text \<open>
  Merging an object into itself: the first loop of \<open>merge\<close> walks the list it appends to,
  and with one element in the list it has no end.
\<close>

lemma self_merge_own_loops:
  "self < length h \<Longrightarrow> i < length (obj_own_errors (h ! self)) \<Longrightarrow>
   list_all is_plain (obj_own_errors (h ! self)) \<Longrightarrow> merge_own_st k h self self i = None"
proof (induction k arbitrary: h i)
  case 0
  then show ?case by simp
next
  case (Suc k)
  let ?es = "obj_own_errors (h ! self)"
  have "is_plain (?es ! i)" using Suc.prems(2,3) by (simp add: list_all_length)
  then obtain c m where e: "?es ! i = Plain c m" by (cases "?es ! i") auto
  show ?case
  proof (cases k)
    case 0
    then show ?thesis using Suc.prems by simp
  next
    case (Suc k')
    define h1 where "h1 = h[self := (h ! self)\<lparr>obj_own_errors := ?es @ [Plain c m]\<rparr>]"
    have a: "add_own_st k h self (?es ! i) = Some h1"
      using Suc.prems(1) by (simp add: Suc e h1_def)
    have "merge_own_st k h1 self self (Suc i) = None"
      by (rule Suc.IH) (use Suc.prems in \<open>simp_all add: h1_def\<close>)
    then show ?thesis
      unfolding merge_own_st.simps(2)[of k] using Suc.prems(1,2) a by (simp del: store_simps)
  qed
qed

lemma self_merge_loops:
  assumes "self < length h" "obj_own_errors (h ! self) \<noteq> []"
    and "list_all is_plain (obj_own_errors (h ! self))"
  shows "add_own_st k h self (Ref self) = None"
proof -
  have m: "merge_own_st j h self self 0 = None" for j
    by (rule self_merge_own_loops) (use assms in simp_all)
  have "merge_st j h self self = None" for j
    by (cases j) (simp_all add: m)
  then show ?thesis by (cases k) simp_all
qed

lemma same_exc_unique:
  "list_all2 same_exc es own \<Longrightarrow> list_all2 same_exc es' own \<Longrightarrow> es = es'"
proof (induction arbitrary: es' rule: list_all2_induct)
  case Nil
  then show ?case by simp
next
  case (Cons x xs y ys)
  then obtain x' xs' where e: "es' = x' # xs'" "same_exc x' y" "list_all2 same_exc xs' ys"
    by (auto simp: list_all2_Cons2)
  have "x = x'" using Cons.hyps(1) e(2) by (cases x; cases x'; cases y) auto
  then show ?case using Cons.IH[OF e(3)] e(1) by simp
qed

lemma tree_at_own:
  "tree_at h a v F \<Longrightarrow> list_all2 same_exc (obj_own_errors (h ! a)) (own_errors v)"
  by (cases v) (auto elim: tree_at_nodeE)

lemma add_own_value:
  assumes "list_all is_Leaf (own_errors t)"
  shows "own_errors (add_own n (Nested t)) = own_errors n @ own_errors t"
    and "add_own n (Nested t)
          = fold (\<lambda>(key, sub) m. add_sub m key (Nested sub)) (sub_errors t)
              (NestedException (own_errors n @ own_errors t) (sub_errors n))"
proof -
  obtain own subs where t: "t = NestedException own subs" by (cases t)
  have m: "add_own n (Nested t)
             = merge_sub (NestedException (own_errors n @ own) (sub_errors n)) subs"
    using assms by (simp add: t merge_own_leaves)
  show "own_errors (add_own n (Nested t)) = own_errors n @ own_errors t"
    by (simp only: m own_errors_merge_sub) (simp add: t)
  show "add_own n (Nested t)
          = fold (\<lambda>(key, sub) m. add_sub m key (Nested sub)) (sub_errors t)
              (NestedException (own_errors n @ own_errors t) (sub_errors n))"
    by (simp only: m merge_sub_fold) (simp add: t)
qed

lemma tree_at_leafI:
  assumes "a < length h" "list_all2 same_exc (obj_own_errors (h ! a)) own"
    and "obj_sub_errors (h ! a) = []"
  shows "tree_at h a (NestedException own []) {a}"
proof -
  have "trees_at h (obj_sub_errors (h ! a)) [] {}"
    unfolding assms(3) by (rule tree_at_trees_at.none)
  from tree_at_trees_at.node[OF assms(1,2) this] show ?thesis by simp
qed

lemma tree_at_childI:
  assumes "a < length h" "list_all2 same_exc (obj_own_errors (h ! a)) own"
    and "obj_sub_errors (h ! a) = [(key, c)]" "tree_at h c v F" "a \<notin> F"
  shows "tree_at h a (NestedException own [(key, v)]) (insert a F)"
proof -
  have "trees_at h [(key, c)] [(key, v)] (F \<union> {})"
    by (rule tree_at_trees_at.more[OF assms(4) tree_at_trees_at.none]) simp
  then have "trees_at h (obj_sub_errors (h ! a)) [(key, v)] F"
    unfolding assms(3) by simp
  from tree_at_trees_at.node[OF assms(1,2) this assms(5)] show ?thesis .
qed

lemma own_error_refines:
  assumes "tree_at h (error_ref a) vr Fr" "exc_at h e ev Fe" "Fr \<inter> Fe = {}"
  shows "\<exists>k h' F'. own_error_st k h a e
                      = Some (h', if autoraise_st a then Raise_st (Ref (error_ref a)) else Return_st)
                   \<and> tree_at h' (error_ref a) (add_own vr ev) F' \<and> grows h Fr h' F'"
proof -
  from add_own_refines[OF assms(2,1,3)] obtain k h' F' where
    "add_own_st k h (error_ref a) e = Some h'" "tree_at h' (error_ref a) (add_own vr ev) F'"
    "grows h Fr h' F'"
    by blast
  then have "own_error_st k h a e
               = Some (h', if autoraise_st a then Raise_st (Ref (error_ref a)) else Return_st)
             \<and> tree_at h' (error_ref a) (add_own vr ev) F' \<and> grows h Fr h' F'"
    by (simp add: own_error_st_def)
  then show ?thesis by blast
qed

lemma sub_error_refines:
  assumes "tree_at h (error_ref a) vr Fr" "exc_at h e ev Fe" "Fr \<inter> Fe = {}"
  shows "\<exists>k h' F'. sub_error_st k h a key e
                      = Some (h', if autoraise_st a then Raise_st (Ref (error_ref a)) else Return_st)
                   \<and> tree_at h' (error_ref a) (add_sub vr key ev) F' \<and> grows h Fr h' F'"
proof -
  from add_sub_refines_any[OF assms(2,1,3), of key] obtain k h' F' where
    "add_sub_st k h (error_ref a) key e = Some h'"
    "tree_at h' (error_ref a) (add_sub vr key ev) F'" "grows h Fr h' F'"
    by blast
  then have "sub_error_st k h a key e
               = Some (h', if autoraise_st a then Raise_st (Ref (error_ref a)) else Return_st)
             \<and> tree_at h' (error_ref a) (add_sub vr key ev) F' \<and> grows h Fr h' F'"
    by (simp add: sub_error_st_def)
  then show ?thesis by blast
qed

section \<open>The claims\<close>

text \<open>
  C1, as the specification states it: \<open>is_empty\<close> is the recursive test (own list empty and
  every child empty under the same test), so a tree whose only children are empty trees is
  empty. The code does not recurse. Putting an empty \<^verbatim>\<open>NestedException\<close> under the key
  \<open>foo\<close> of an empty one gives a tree that the recursive test calls empty and
  \<^verbatim>\<open>__nonzero__\<close> calls non-empty, and the aggregator reports errors.
\<close>

theorem is_empty_not_recursive:
  "is_empty_rec (add_sub (NestedException [] []) ''foo'' (Nested (NestedException [] [])))
   \<and> \<not> is_empty (add_sub (NestedException [] []) ''foo'' (Nested (NestedException [] [])))
   \<and> has_errors (fst (sub_error (init False) ''foo'' (Nested (NestedException [] []))))"
  by (simp add: setdefault_def is_empty_def nonzero_def has_errors_def sub_error_def init_def)

text \<open>
  C1, amended: \<open>is_empty\<close> is true iff the own list is empty and the children mapping has no
  entry at all (what the children hold is not looked at). Whenever it is true the recursive
  test is true as well, and the two agree on every tree none of whose children is empty
  under the recursive test. \<open>has_errors\<close> is the negation of \<open>is_empty\<close> on the root.
\<close>

theorem is_empty_shallow:
  "is_empty t = (own_errors t = [] \<and> sub_errors t = [])
   \<and> (is_empty t \<longrightarrow> is_empty_rec t)
   \<and> (list_all (\<lambda>(key, child). \<not> is_empty_rec child) (sub_errors t)
        \<longrightarrow> is_empty t = is_empty_rec t)
   \<and> has_errors a = (\<not> is_empty (error a))"
proof -
  obtain own subs where t: "t = NestedException own subs" by (cases t)
  show ?thesis unfolding t
    by (cases subs) (auto simp: is_empty_def nonzero_def has_errors_def)
qed

theorem is_empty_shallow_witness:
  "is_empty (NestedException [] []) \<and> is_empty_rec (NestedException [] [])
   \<and> list_all (\<lambda>(key, child). \<not> is_empty_rec child)
        (sub_errors (NestedException [] [(''x'', NestedException [Err ''bad''] [])]))
   \<and> \<not> is_empty (NestedException [] [(''x'', NestedException [Err ''bad''] [])])
   \<and> \<not> is_empty_rec (NestedException [] [(''x'', NestedException [Err ''bad''] [])])
   \<and> has_errors (init False) = (\<not> is_empty (error (init False)))"
  using is_empty_shallow[of "NestedException [] []" "init False"]
        is_empty_shallow[of "NestedException [] [(''x'', NestedException [Err ''bad''] [])]"
                            "init False"]
  by (simp add: is_empty_def nonzero_def)

text \<open>
  C2: the string form of a tree is the literal \<open><no message>\<close> when own list and children
  are both empty. Otherwise it is the rendering the specification describes
  (\<open>full_summary\<close>): the own failures joined with \<open>, \<close>, each child rendered as
  \<open>key: [child]\<close> and these joined with \<open>, \<close>, the two parts joined with \<open>; \<close> and an empty
  part left out. The children are taken in ascending key order, every entry once, so with
  pairwise different keys (a dictionary) the result does not depend on the insertion order.
\<close>

theorem str_nested_rendering:
  "str_nested (NestedException [] []) = ''<no message>''
   \<and> str_nested t = full_summary t
   \<and> sorted (map fst (sort_key fst (sub_errors t)))
   \<and> mset (sort_key fst (sub_errors t)) = mset (sub_errors t)
   \<and> (distinct (map fst subs) \<and> mset subs = mset subs'
        \<longrightarrow> str_nested (NestedException own subs) = str_nested (NestedException own subs'))"
proof (intro conjI impI)
  show "str_nested t = full_summary t" by (rule str_nested_full_summary)
next
  assume a: "distinct (map fst subs) \<and> mset subs = mset subs'"
  then have s: "sort_key fst subs = sort_key fst subs'"
    by (intro sort_key_fst_unique) simp_all
  have "length subs = length subs'"
    using a by (metis size_mset)
  then have e: "(subs = []) = (subs' = [])" by auto
  show "str_nested (NestedException own subs) = str_nested (NestedException own subs')"
    by (simp only: str_nested_full_summary full_summary.simps s e)
qed simp_all

text \<open>Inserting \<open>foo\<close> and then \<open>bar\<close> renders \<open>bar\<close> first.\<close>

theorem str_nested_rendering_witness:
  "distinct (map fst [(''foo'', NestedException [Err ''x''] []),
                      (''bar'', NestedException [Err ''y''] [])])
   \<and> mset [(''foo'', NestedException [Err ''x''] []), (''bar'', NestedException [Err ''y''] [])]
       = mset [(''bar'', NestedException [Err ''y''] []), (''foo'', NestedException [Err ''x''] [])]
   \<and> add_sub (add_sub (NestedException [] []) ''foo'' (Err ''x'')) ''bar'' (Err ''y'')
       = NestedException []
           [(''foo'', NestedException [Err ''x''] []), (''bar'', NestedException [Err ''y''] [])]
   \<and> str_nested (add_sub (add_sub (NestedException [] []) ''foo'' (Err ''x'')) ''bar'' (Err ''y''))
       = ''bar: [y], foo: [x]''
   \<and> full_summary (NestedException []
         [(''bar'', NestedException [Err ''y''] []), (''foo'', NestedException [Err ''x''] [])])
       = ''bar: [y], foo: [x]''"
  using str_nested_rendering[of
      "NestedException []
         [(''foo'', NestedException [Err ''x''] []), (''bar'', NestedException [Err ''y''] [])]"
      "[(''foo'', NestedException [Err ''x''] []), (''bar'', NestedException [Err ''y''] [])]"
      "[(''bar'', NestedException [Err ''y''] []), (''foo'', NestedException [Err ''x''] [])]"
      "[]"]
  by (simp add: Err_def setdefault_def glue_def)

text \<open>
  C3, as stated: for every pair of trees \<open>n\<close> and \<open>t\<close>, after \<open>n.add_own(t)\<close> the own list of
  \<open>n\<close> is its previous own list followed by the own list of \<open>t\<close>. It fails when \<open>t\<close> is \<open>n\<close>
  itself. Below, object 0 has one failure in its own list and \<open>n.add_own(n)\<close> is called on it:
  the first loop of \<open>merge\<close> walks the own list of \<open>n\<close> and appends each element it meets to
  that same list, so it always finds one more element. The call returns for no bound on the
  depth of calls: there is no state after it.
\<close>

theorem add_own_self_never_returns:
  "\<forall>fuel. add_own_st fuel
      [\<lparr>obj_own_errors = [Err_st ''x''], obj_sub_errors = []\<rparr>] 0 (Ref 0) = None"
  by (intro allI, rule self_merge_loops) (simp_all add: Err_st_def)

text \<open>
  C3, amended: let \<open>n\<close> and \<open>t\<close> be trees of objects that share no object (\<open>tree_at\<close>, with
  \<open>vn\<close> and \<open>vt\<close> the two trees as values). Then \<open>n.add_own(t)\<close> returns, \<open>t\<close> is as before, and
  the own list of \<open>n\<close> is its previous own list followed by the own list of \<open>t\<close>. As a
  value, \<open>n\<close> is then \<open>add_own vn (Nested vt)\<close>, which is the result of calling
  \<open>add_sub key subtree\<close> for every entry of the children of \<open>t\<close>, in their order, after the
  own list has been extended. \<open>n.add_sub(key, t)\<close> returns too and leaves \<open>n\<close> as
  \<open>add_sub vn key (Nested vt)\<close>: \<open>add_sub\<close> applies \<open>add_own\<close> to the child under the key, a
  new empty child at the end of the children when the key is new. With an ordinary
  exception, \<open>add_own\<close> appends exactly that one element at the end of the own list and
  leaves the children alone.
\<close>

theorem add_own_merges:
  assumes "tree_at h n vn Fn" "tree_at h t vt Ft" "Fn \<inter> Ft = {}"
  shows "(\<exists>k h' F'. add_own_st k h n (Ref t) = Some h'
            \<and> tree_at h' n (add_own vn (Nested vt)) F' \<and> tree_at h' t vt Ft
            \<and> obj_own_errors (h' ! n) = obj_own_errors (h ! n) @ obj_own_errors (h ! t))
       \<and> own_errors (add_own vn (Nested vt)) = own_errors vn @ own_errors vt
       \<and> add_own vn (Nested vt)
           = fold (\<lambda>(key, sub) m. add_sub m key (Nested sub)) (sub_errors vt)
               (NestedException (own_errors vn @ own_errors vt) (sub_errors vn))
       \<and> (\<exists>k h' F'. add_sub_st k h n key (Ref t) = Some h'
            \<and> tree_at h' n (add_sub vn key (Nested vt)) F' \<and> tree_at h' t vt Ft)
       \<and> add_sub vn key ev
           = NestedException (own_errors vn)
               (case map_of (sub_errors vn) key of
                  None \<Rightarrow> sub_errors vn @ [(key, add_own (NestedException [] []) ev)]
                | Some child \<Rightarrow> store (sub_errors vn) key (add_own child ev))
       \<and> (\<exists>h'. add_own_st (Suc k) h n (Plain c m) = Some h'
            \<and> tree_at h' n (NestedException (own_errors vn @ [Leaf c m]) (sub_errors vn)) Fn
            \<and> obj_own_errors (h' ! n) = obj_own_errors (h ! n) @ [Plain c m])"
proof (intro conjI)
  have lf: "list_all is_Leaf (own_errors vt)"
    using same_exc_plain[OF tree_at_own[OF assms(2)]] by simp
  show ov: "own_errors (add_own vn (Nested vt)) = own_errors vn @ own_errors vt"
    by (rule add_own_value(1)[OF lf])
  show "add_own vn (Nested vt)
           = fold (\<lambda>(key, sub) m. add_sub m key (Nested sub)) (sub_errors vt)
               (NestedException (own_errors vn @ own_errors vt) (sub_errors vn))"
    by (rule add_own_value(2)[OF lf])
  show "add_sub vn key ev
           = NestedException (own_errors vn)
               (case map_of (sub_errors vn) key of
                  None \<Rightarrow> sub_errors vn @ [(key, add_own (NestedException [] []) ev)]
                | Some child \<Rightarrow> store (sub_errors vn) key (add_own child ev))"
    by (rule add_sub_cases)
  from add_own_refines[OF exc_at.tree[OF assms(2)] assms(1,3)] obtain k0 h' F' where
    r: "add_own_st k0 h n (Ref t) = Some h'" and t': "tree_at h' n (add_own vn (Nested vt)) F'"
    and g: "grows h Fn h' F'"
    by blast
  have tt: "tree_at h' t vt Ft"
    using tree_at_grows(1)[OF g _ assms(2)] assms(3) by auto
  have "list_all2 same_exc (obj_own_errors (h ! n) @ obj_own_errors (h ! t))
          (own_errors vn @ own_errors vt)"
    using tree_at_own[OF assms(1)] tree_at_own[OF assms(2)] by (rule list_all2_appendI)
  then have "obj_own_errors (h' ! n) = obj_own_errors (h ! n) @ obj_own_errors (h ! t)"
    using tree_at_own[OF t'] unfolding ov by (rule same_exc_unique[rotated])
  then show "\<exists>k h' F'. add_own_st k h n (Ref t) = Some h'
            \<and> tree_at h' n (add_own vn (Nested vt)) F' \<and> tree_at h' t vt Ft
            \<and> obj_own_errors (h' ! n) = obj_own_errors (h ! n) @ obj_own_errors (h ! t)"
    using r t' tt by blast
  from add_sub_refines_any[OF exc_at.tree[OF assms(2)] assms(1,3), of key] obtain k1 h1 F1 where
    s: "add_sub_st k1 h n key (Ref t) = Some h1"
    and s': "tree_at h1 n (add_sub vn key (Nested vt)) F1" and sg: "grows h Fn h1 F1"
    by blast
  have "tree_at h1 t vt Ft"
    using tree_at_grows(1)[OF sg _ assms(2)] assms(3) by auto
  with s s' show "\<exists>k h' F'. add_sub_st k h n key (Ref t) = Some h'
            \<and> tree_at h' n (add_sub vn key (Nested vt)) F' \<and> tree_at h' t vt Ft"
    by blast
  have nl: "n < length h" using tree_at_inside(1)[OF assms(1)] by auto
  from add_own_plain_refines[OF assms(1), of k c m] obtain h2 where
    p: "add_own_st (Suc k) h n (Plain c m) = Some h2"
    and tp: "tree_at h2 n (add_own vn (Leaf c m)) Fn"
    by blast
  have "obj_own_errors (h2 ! n) = obj_own_errors (h ! n) @ [Plain c m]"
    using p nl by auto
  then show "\<exists>h'. add_own_st (Suc k) h n (Plain c m) = Some h'
            \<and> tree_at h' n (NestedException (own_errors vn @ [Leaf c m]) (sub_errors vn)) Fn
            \<and> obj_own_errors (h' ! n) = obj_own_errors (h ! n) @ [Plain c m]"
    using p tp by simp
qed

text \<open>
  The scenario: two trees, each with one own failure and a child under \<open>foo\<close>; the merged
  tree holds both own failures in order and its \<open>foo\<close> child both child failures in order.
  (The last object of the store afterwards is the one \<open>add_sub\<close> made and did not use, the
  key being there already.)
\<close>

theorem add_own_merges_witness:
  "tree_at
     [\<lparr>obj_own_errors = [Err_st ''a''], obj_sub_errors = [(''foo'', 1)]\<rparr>,
      \<lparr>obj_own_errors = [Err_st ''foo1''], obj_sub_errors = []\<rparr>,
      \<lparr>obj_own_errors = [Err_st ''b''], obj_sub_errors = [(''foo'', 3)]\<rparr>,
      \<lparr>obj_own_errors = [Err_st ''foo2''], obj_sub_errors = []\<rparr>]
     0 (NestedException [Err ''a''] [(''foo'', NestedException [Err ''foo1''] [])]) {0, 1}
   \<and> tree_at
     [\<lparr>obj_own_errors = [Err_st ''a''], obj_sub_errors = [(''foo'', 1)]\<rparr>,
      \<lparr>obj_own_errors = [Err_st ''foo1''], obj_sub_errors = []\<rparr>,
      \<lparr>obj_own_errors = [Err_st ''b''], obj_sub_errors = [(''foo'', 3)]\<rparr>,
      \<lparr>obj_own_errors = [Err_st ''foo2''], obj_sub_errors = []\<rparr>]
     2 (NestedException [Err ''b''] [(''foo'', NestedException [Err ''foo2''] [])]) {2, 3}
   \<and> {0, 1::nat} \<inter> {2, 3} = {}
   \<and> add_own_st 12
     [\<lparr>obj_own_errors = [Err_st ''a''], obj_sub_errors = [(''foo'', 1)]\<rparr>,
      \<lparr>obj_own_errors = [Err_st ''foo1''], obj_sub_errors = []\<rparr>,
      \<lparr>obj_own_errors = [Err_st ''b''], obj_sub_errors = [(''foo'', 3)]\<rparr>,
      \<lparr>obj_own_errors = [Err_st ''foo2''], obj_sub_errors = []\<rparr>]
     0 (Ref 2)
     = Some
     [\<lparr>obj_own_errors = [Err_st ''a'', Err_st ''b''], obj_sub_errors = [(''foo'', 1)]\<rparr>,
      \<lparr>obj_own_errors = [Err_st ''foo1'', Err_st ''foo2''], obj_sub_errors = []\<rparr>,
      \<lparr>obj_own_errors = [Err_st ''b''], obj_sub_errors = [(''foo'', 3)]\<rparr>,
      \<lparr>obj_own_errors = [Err_st ''foo2''], obj_sub_errors = []\<rparr>,
      \<lparr>obj_own_errors = [], obj_sub_errors = []\<rparr>]
   \<and> add_own (NestedException [Err ''a''] [(''foo'', NestedException [Err ''foo1''] [])])
        (Nested (NestedException [Err ''b''] [(''foo'', NestedException [Err ''foo2''] [])]))
     = NestedException [Err ''a'', Err ''b'']
         [(''foo'', NestedException [Err ''foo1'', Err ''foo2''] [])]
   \<and> tree_at
     [\<lparr>obj_own_errors = [Err_st ''a'', Err_st ''b''], obj_sub_errors = [(''foo'', 1)]\<rparr>,
      \<lparr>obj_own_errors = [Err_st ''foo1'', Err_st ''foo2''], obj_sub_errors = []\<rparr>,
      \<lparr>obj_own_errors = [Err_st ''b''], obj_sub_errors = [(''foo'', 3)]\<rparr>,
      \<lparr>obj_own_errors = [Err_st ''foo2''], obj_sub_errors = []\<rparr>,
      \<lparr>obj_own_errors = [], obj_sub_errors = []\<rparr>]
     0 (NestedException [Err ''a'', Err ''b'']
         [(''foo'', NestedException [Err ''foo1'', Err ''foo2''] [])]) {0, 1}"
proof -
  let ?h = "[\<lparr>obj_own_errors = [Err_st ''a''], obj_sub_errors = [(''foo'', 1)]\<rparr>,
      \<lparr>obj_own_errors = [Err_st ''foo1''], obj_sub_errors = []\<rparr>,
      \<lparr>obj_own_errors = [Err_st ''b''], obj_sub_errors = [(''foo'', 3)]\<rparr>,
      \<lparr>obj_own_errors = [Err_st ''foo2''], obj_sub_errors = []\<rparr>]"
  let ?h' = "[\<lparr>obj_own_errors = [Err_st ''a'', Err_st ''b''], obj_sub_errors = [(''foo'', 1)]\<rparr>,
      \<lparr>obj_own_errors = [Err_st ''foo1'', Err_st ''foo2''], obj_sub_errors = []\<rparr>,
      \<lparr>obj_own_errors = [Err_st ''b''], obj_sub_errors = [(''foo'', 3)]\<rparr>,
      \<lparr>obj_own_errors = [Err_st ''foo2''], obj_sub_errors = []\<rparr>,
      \<lparr>obj_own_errors = [], obj_sub_errors = []\<rparr>]"
  have n1: "tree_at ?h 1 (NestedException [Err ''foo1''] []) {1}"
    by (rule tree_at_leafI) (simp_all add: Err_st_def Err_def)
  have n: "tree_at ?h 0 (NestedException [Err ''a''] [(''foo'', NestedException [Err ''foo1''] [])])
             {0, 1}"
    by (rule tree_at_childI[OF _ _ _ n1]) (simp_all add: Err_st_def Err_def)
  have t1: "tree_at ?h 3 (NestedException [Err ''foo2''] []) {3}"
    by (rule tree_at_leafI) (simp_all add: Err_st_def Err_def)
  have t: "tree_at ?h 2 (NestedException [Err ''b''] [(''foo'', NestedException [Err ''foo2''] [])])
             {2, 3}"
    by (rule tree_at_childI[OF _ _ _ t1]) (simp_all add: Err_st_def Err_def)
  have d: "{0, 1::nat} \<inter> {2, 3} = {}" by simp
  have r1: "tree_at ?h' 1 (NestedException [Err ''foo1'', Err ''foo2''] []) {1}"
    by (rule tree_at_leafI) (simp_all add: Err_st_def Err_def)
  have r: "tree_at ?h' 0 (NestedException [Err ''a'', Err ''b'']
             [(''foo'', NestedException [Err ''foo1'', Err ''foo2''] [])]) {0, 1}"
    by (rule tree_at_childI[OF _ _ _ r1]) (simp_all add: Err_st_def Err_def)
  have run: "add_own_st 12 ?h 0 (Ref 2) = Some ?h'"
    by (simp add: numeral_eq_Suc new_object_def Err_st_def)
  have v: "add_own (NestedException [Err ''a''] [(''foo'', NestedException [Err ''foo1''] [])])
        (Nested (NestedException [Err ''b''] [(''foo'', NestedException [Err ''foo2''] [])]))
     = NestedException [Err ''a'', Err ''b'']
         [(''foo'', NestedException [Err ''foo1'', Err ''foo2''] [])]"
    by (simp add: Err_def setdefault_def)
  from add_own_merges[OF n t d, of "''foo''" "Err ''foo2''" 0 "[]" "[]"] n t d run v r
  show ?thesis by (intro conjI)
qed

text \<open>
  C4, as stated: with \<open>autoraise\<close> set, every recording, those made by a context manager
  included, records the failure and then raises the root. It fails for a recording made
  inside the body of \<open>checking\<close>: in
  \<^verbatim>\<open>with eg.checking(): eg.own_error(Exception("bad price"))\<close> the call of \<open>own_error\<close>
  records the failure and raises the root (the first part below); \<open>checking\<close> catches it, a
  \<^verbatim>\<open>NestedException\<close> being an \<^verbatim>\<open>Exception\<close>, and calls \<open>own_error\<close> with the root, which
  merges the root into itself. That call does not return, for any bound on the depth of
  calls, and so nothing is raised.
\<close>

theorem autoraise_in_checking_never_raises:
  "own_error_st 1 [\<lparr>obj_own_errors = [], obj_sub_errors = []\<rparr>]
       \<lparr>error_ref = 0, autoraise_st = True, catch_type_st = ''Exception''\<rparr>
       (Err_st ''bad price'')
     = Some ([\<lparr>obj_own_errors = [Err_st ''bad price''], obj_sub_errors = []\<rparr>],
             Raise_st (Ref 0))
   \<and> isinstance_st (Ref 0) ''Exception''
   \<and> (\<forall>fuel. checking_st fuel
          [\<lparr>obj_own_errors = [Err_st ''bad price''], obj_sub_errors = []\<rparr>]
          \<lparr>error_ref = 0, autoraise_st = True, catch_type_st = ''Exception''\<rparr>
          (Raise_st (Ref 0)) = None)"
proof (intro conjI allI)
  fix fuel
  have "add_own_st fuel [\<lparr>obj_own_errors = [Err_st ''bad price''], obj_sub_errors = []\<rparr>]
          0 (Ref 0) = None"
    by (rule self_merge_loops) (simp_all add: Err_st_def)
  then show "checking_st fuel
          [\<lparr>obj_own_errors = [Err_st ''bad price''], obj_sub_errors = []\<rparr>]
          \<lparr>error_ref = 0, autoraise_st = True, catch_type_st = ''Exception''\<rparr>
          (Raise_st (Ref 0)) = None"
    by (simp add: checking_st_def own_error_st_def isinstance_st_def)
qed (simp_all add: own_error_st_def isinstance_st_def Err_st_def)

text \<open>
  C4, amended: let the root of the aggregator be a tree of objects, and let the failure be an
  ordinary exception or a tree that shares no object with the root. With \<open>autoraise\<close> set,
  \<open>own_error\<close> and \<open>sub_error\<close> return after recording the failure in the root and raise the
  root itself, as it is after the recording (\<open>add_own vr ev\<close>, \<open>add_sub vr key ev\<close> as
  values); the two context managers do the same for such a failure when they catch it. The
  raised tree extends the root as it was before the call: everything recorded earlier is
  still in it.
\<close>

theorem autoraise_raises_whole_tree:
  assumes "autoraise_st a" "tree_at h (error_ref a) vr Fr" "exc_at h e ev Fe" "Fr \<inter> Fe = {}"
  shows "(\<exists>k h' F'. own_error_st k h a e = Some (h', Raise_st (Ref (error_ref a)))
            \<and> tree_at h' (error_ref a) (add_own vr ev) F')
       \<and> (\<exists>k h' F'. sub_error_st k h a key e = Some (h', Raise_st (Ref (error_ref a)))
            \<and> tree_at h' (error_ref a) (add_sub vr key ev) F')
       \<and> (isinstance_st e (catch_type_st a) \<longrightarrow>
            checking_st fuel h a (Raise_st e) = own_error_st fuel h a e
          \<and> checking_sub_st fuel h a key (Raise_st e) = sub_error_st fuel h a key e)
       \<and> extends vr (add_own vr ev)
       \<and> extends vr (add_sub vr key ev)"
proof (intro conjI impI)
  show "\<exists>k h' F'. own_error_st k h a e = Some (h', Raise_st (Ref (error_ref a)))
            \<and> tree_at h' (error_ref a) (add_own vr ev) F'"
    using own_error_refines[OF assms(2,3,4)] assms(1) by auto
  show "\<exists>k h' F'. sub_error_st k h a key e = Some (h', Raise_st (Ref (error_ref a)))
            \<and> tree_at h' (error_ref a) (add_sub vr key ev) F'"
    using sub_error_refines[OF assms(2,3,4), of key] assms(1) by auto
  show "extends vr (add_own vr ev)" by (rule extends_grow(1))
  show "extends vr (add_sub vr key ev)" by (rule extends_grow(2))
next
  assume "isinstance_st e (catch_type_st a)"
  then show "checking_st fuel h a (Raise_st e) = own_error_st fuel h a e"
    and "checking_sub_st fuel h a key (Raise_st e) = sub_error_st fuel h a key e"
    by (simp_all add: checking_st_def checking_sub_st_def)
qed

text \<open>
  The scenario: \<open>own_error\<close> with \<open>bad price\<close> raises a root that reads \<open>bad price\<close>, and then
  \<open>checking_sub\<close> under \<open>foo\<close> with \<open>foo bad\<close> raises a root that reads
  \<open>bad price; foo: [foo bad]\<close>.
\<close>

theorem autoraise_raises_whole_tree_witness:
  "autoraise_st \<lparr>error_ref = 0, autoraise_st = True, catch_type_st = ''Exception''\<rparr>
   \<and> tree_at [\<lparr>obj_own_errors = [], obj_sub_errors = []\<rparr>] 0 (NestedException [] []) {0}
   \<and> exc_at [\<lparr>obj_own_errors = [], obj_sub_errors = []\<rparr>]
        (Err_st ''bad price'') (Err ''bad price'') {}
   \<and> own_error_st 1 [\<lparr>obj_own_errors = [], obj_sub_errors = []\<rparr>]
       \<lparr>error_ref = 0, autoraise_st = True, catch_type_st = ''Exception''\<rparr>
       (Err_st ''bad price'')
     = Some ([\<lparr>obj_own_errors = [Err_st ''bad price''], obj_sub_errors = []\<rparr>],
             Raise_st (Ref 0))
   \<and> tree_at [\<lparr>obj_own_errors = [Err_st ''bad price''], obj_sub_errors = []\<rparr>] 0
        (NestedException [Err ''bad price''] []) {0}
   \<and> str_nested (NestedException [Err ''bad price''] []) = ''bad price''
   \<and> exc_at [\<lparr>obj_own_errors = [Err_st ''bad price''], obj_sub_errors = []\<rparr>]
        (Err_st ''foo bad'') (Err ''foo bad'') {}
   \<and> isinstance_st (Err_st ''foo bad'') ''Exception''
   \<and> checking_sub_st 2 [\<lparr>obj_own_errors = [Err_st ''bad price''], obj_sub_errors = []\<rparr>]
       \<lparr>error_ref = 0, autoraise_st = True, catch_type_st = ''Exception''\<rparr> ''foo''
       (Raise_st (Err_st ''foo bad''))
     = Some ([\<lparr>obj_own_errors = [Err_st ''bad price''], obj_sub_errors = [(''foo'', 1)]\<rparr>,
              \<lparr>obj_own_errors = [Err_st ''foo bad''], obj_sub_errors = []\<rparr>],
             Raise_st (Ref 0))
   \<and> tree_at [\<lparr>obj_own_errors = [Err_st ''bad price''], obj_sub_errors = [(''foo'', 1)]\<rparr>,
              \<lparr>obj_own_errors = [Err_st ''foo bad''], obj_sub_errors = []\<rparr>] 0
        (NestedException [Err ''bad price''] [(''foo'', NestedException [Err ''foo bad''] [])])
        {0, 1}
   \<and> str_nested (NestedException [Err ''bad price'']
                     [(''foo'', NestedException [Err ''foo bad''] [])])
       = ''bad price; foo: [foo bad]''"
proof -
  let ?a = "\<lparr>error_ref = 0, autoraise_st = True, catch_type_st = ''Exception''\<rparr>"
  let ?h0 = "[\<lparr>obj_own_errors = [], obj_sub_errors = []\<rparr>]"
  let ?h1 = "[\<lparr>obj_own_errors = [Err_st ''bad price''], obj_sub_errors = []\<rparr>]"
  let ?h2 = "[\<lparr>obj_own_errors = [Err_st ''bad price''], obj_sub_errors = [(''foo'', 1)]\<rparr>,
              \<lparr>obj_own_errors = [Err_st ''foo bad''], obj_sub_errors = []\<rparr>]"
  have ar: "autoraise_st ?a" by simp
  have t0: "tree_at ?h0 (error_ref ?a) (NestedException [] []) {0}"
    by simp (rule tree_at_leafI, simp_all)
  have e0: "exc_at ?h0 (Err_st ''bad price'') (Err ''bad price'') {}"
    unfolding Err_st_def Err_def by (rule exc_at.plain)
  have t1: "tree_at ?h1 (error_ref ?a) (NestedException [Err ''bad price''] []) {0}"
    by simp (rule tree_at_leafI, simp_all add: Err_st_def Err_def)
  have e1: "exc_at ?h1 (Err_st ''foo bad'') (Err ''foo bad'') {}"
    unfolding Err_st_def Err_def by (rule exc_at.plain)
  have c2: "tree_at ?h2 1 (NestedException [Err ''foo bad''] []) {1}"
    by (rule tree_at_leafI) (simp_all add: Err_st_def Err_def)
  have t2: "tree_at ?h2 0
        (NestedException [Err ''bad price''] [(''foo'', NestedException [Err ''foo bad''] [])])
        {0, 1}"
    by (rule tree_at_childI[OF _ _ _ c2]) (simp_all add: Err_st_def Err_def)
  have run1: "own_error_st 1 ?h0 ?a (Err_st ''bad price'') = Some (?h1, Raise_st (Ref 0))"
    by (simp add: own_error_st_def Err_st_def)
  have i: "isinstance_st (Err_st ''foo bad'') ''Exception''"
    by (simp add: isinstance_st_def Err_st_def)
  have run2: "checking_sub_st 2 ?h1 ?a ''foo'' (Raise_st (Err_st ''foo bad''))
                = Some (?h2, Raise_st (Ref 0))"
    by (simp add: checking_sub_st_def sub_error_st_def isinstance_st_def Err_st_def
          numeral_eq_Suc new_object_def)
  have s1: "str_nested (NestedException [Err ''bad price''] []) = ''bad price''"
    by (simp add: Err_def)
  have s2: "str_nested (NestedException [Err ''bad price'']
                     [(''foo'', NestedException [Err ''foo bad''] [])])
       = ''bad price; foo: [foo bad]''"
    by (simp add: Err_def)
  have t0': "tree_at ?h0 0 (NestedException [] []) {0}" using t0 by simp
  have t1': "tree_at ?h1 0 (NestedException [Err ''bad price''] []) {0}" using t1 by simp
  have d: "{0::nat} \<inter> {} = {}" by simp
  from autoraise_raises_whole_tree[OF ar t0 e0 d, of "''foo''" 1]
       autoraise_raises_whole_tree[OF ar t1 e1 d, of "''foo''" 2]
       ar t0' e0 run1 t1' s1 e1 i run2 t2 s2
  show ?thesis by (intro conjI)
qed

text \<open>
  C5, as stated: for every body, a failure that \<open>catch_type\<close> covers is handed to \<open>own_error\<close>
  and does not leave the helper. It fails when the body raises the root of the aggregator
  itself, as \<^verbatim>\<open>with eg.checking(): eg.raise_if_any()\<close> does once a failure has been recorded:
  \<open>checking\<close> catches the root and calls \<open>own_error\<close> with it, which merges the root into
  itself. The helper does not return, for any bound on the depth of calls.
\<close>

theorem checking_own_root_never_returns:
  "isinstance_st (Ref 0) ''Exception''
   \<and> (\<forall>fuel. checking_st fuel
          [\<lparr>obj_own_errors = [Err_st ''x failed''], obj_sub_errors = [(''k'', 1)]\<rparr>,
           \<lparr>obj_own_errors = [Err_st ''k failed''], obj_sub_errors = []\<rparr>]
          \<lparr>error_ref = 0, autoraise_st = False, catch_type_st = ''Exception''\<rparr>
          (Raise_st (Ref 0)) = None)"
proof (intro conjI allI)
  fix fuel
  have "add_own_st fuel
          [\<lparr>obj_own_errors = [Err_st ''x failed''], obj_sub_errors = [(''k'', 1)]\<rparr>,
           \<lparr>obj_own_errors = [Err_st ''k failed''], obj_sub_errors = []\<rparr>]
          0 (Ref 0) = None"
    by (rule self_merge_loops) (simp_all add: Err_st_def)
  then show "checking_st fuel
          [\<lparr>obj_own_errors = [Err_st ''x failed''], obj_sub_errors = [(''k'', 1)]\<rparr>,
           \<lparr>obj_own_errors = [Err_st ''k failed''], obj_sub_errors = []\<rparr>]
          \<lparr>error_ref = 0, autoraise_st = False, catch_type_st = ''Exception''\<rparr>
          (Raise_st (Ref 0)) = None"
    by (simp add: checking_st_def own_error_st_def isinstance_st_def)
qed (simp_all add: isinstance_st_def)

text \<open>
  C5, amended: let the root of the aggregator be a tree of objects, and let the failure the
  body raises be an ordinary exception or a tree that shares no object with the root. When
  the failure is an instance of \<open>catch_type\<close>, \<open>checking\<close> hands it to \<open>own_error\<close> and
  \<open>checking_sub\<close> to \<open>sub_error\<close> with the key; the call returns with the failure recorded
  in the root, and ends as that recording ends: normally, unless \<open>autoraise\<close> is set, in
  which case the root is raised in its place. A failure that is no instance of \<open>catch_type\<close>
  leaves the helper as it was raised and the store is as before. A body that returns leaves
  the store as it was.
\<close>

theorem checking_catches:
  assumes "tree_at h (error_ref a) vr Fr" "exc_at h e ev Fe" "Fr \<inter> Fe = {}"
  shows "(isinstance_st e (catch_type_st a) \<longrightarrow>
            checking_st fuel h a (Raise_st e) = own_error_st fuel h a e
          \<and> checking_sub_st fuel h a key (Raise_st e) = sub_error_st fuel h a key e
          \<and> (\<exists>k h' F'. checking_st k h a (Raise_st e)
                 = Some (h', if autoraise_st a then Raise_st (Ref (error_ref a)) else Return_st)
               \<and> tree_at h' (error_ref a) (add_own vr ev) F')
          \<and> (\<exists>k h' F'. checking_sub_st k h a key (Raise_st e)
                 = Some (h', if autoraise_st a then Raise_st (Ref (error_ref a)) else Return_st)
               \<and> tree_at h' (error_ref a) (add_sub vr key ev) F'))
       \<and> (\<not> isinstance_st e (catch_type_st a) \<longrightarrow>
            checking_st fuel h a (Raise_st e) = Some (h, Raise_st e)
          \<and> checking_sub_st fuel h a key (Raise_st e) = Some (h, Raise_st e))
       \<and> checking_st fuel h a Return_st = Some (h, Return_st)
       \<and> checking_sub_st fuel h a key Return_st = Some (h, Return_st)"
proof (intro conjI impI)
  assume i: "isinstance_st e (catch_type_st a)"
  then have c: "checking_st k h a (Raise_st e) = own_error_st k h a e"
    and cs: "checking_sub_st k h a key (Raise_st e) = sub_error_st k h a key e" for k
    by (simp_all add: checking_st_def checking_sub_st_def)
  show "checking_st fuel h a (Raise_st e) = own_error_st fuel h a e" by (rule c)
  show "checking_sub_st fuel h a key (Raise_st e) = sub_error_st fuel h a key e" by (rule cs)
  show "\<exists>k h' F'. checking_st k h a (Raise_st e)
                 = Some (h', if autoraise_st a then Raise_st (Ref (error_ref a)) else Return_st)
               \<and> tree_at h' (error_ref a) (add_own vr ev) F'"
    unfolding c using own_error_refines[OF assms] by blast
  show "\<exists>k h' F'. checking_sub_st k h a key (Raise_st e)
                 = Some (h', if autoraise_st a then Raise_st (Ref (error_ref a)) else Return_st)
               \<and> tree_at h' (error_ref a) (add_sub vr key ev) F'"
    unfolding cs using sub_error_refines[OF assms, of key] by blast
next
  assume "\<not> isinstance_st e (catch_type_st a)"
  then show "checking_st fuel h a (Raise_st e) = Some (h, Raise_st e)"
    and "checking_sub_st fuel h a key (Raise_st e) = Some (h, Raise_st e)"
    by (simp_all add: checking_st_def checking_sub_st_def)
next
  show "checking_st fuel h a Return_st = Some (h, Return_st)"
    by (simp add: checking_st_def)
  show "checking_sub_st fuel h a key Return_st = Some (h, Return_st)"
    by (simp add: checking_sub_st_def)
qed

text \<open>
  Three bodies under an aggregator with nothing recorded: one raises an ordinary exception
  under \<open>checking_sub\<close>, one raises another \<^verbatim>\<open>NestedException\<close> (object 1) under \<open>checking\<close>,
  one raises a \<^verbatim>\<open>KeyboardInterrupt\<close>, which \<^verbatim>\<open>Exception\<close> does not cover.
\<close>

theorem checking_catches_witness:
  "tree_at [\<lparr>obj_own_errors = [], obj_sub_errors = []\<rparr>,
            \<lparr>obj_own_errors = [Err_st ''inner''], obj_sub_errors = []\<rparr>] 0
        (NestedException [] []) {0}
   \<and> exc_at [\<lparr>obj_own_errors = [], obj_sub_errors = []\<rparr>,
            \<lparr>obj_own_errors = [Err_st ''inner''], obj_sub_errors = []\<rparr>]
        (Err_st ''x failed'') (Err ''x failed'') {}
   \<and> isinstance_st (Err_st ''x failed'') ''Exception''
   \<and> checking_sub_st 2
        [\<lparr>obj_own_errors = [], obj_sub_errors = []\<rparr>,
         \<lparr>obj_own_errors = [Err_st ''inner''], obj_sub_errors = []\<rparr>]
        \<lparr>error_ref = 0, autoraise_st = False, catch_type_st = ''Exception''\<rparr> ''x''
        (Raise_st (Err_st ''x failed''))
     = Some ([\<lparr>obj_own_errors = [], obj_sub_errors = [(''x'', 2)]\<rparr>,
              \<lparr>obj_own_errors = [Err_st ''inner''], obj_sub_errors = []\<rparr>,
              \<lparr>obj_own_errors = [Err_st ''x failed''], obj_sub_errors = []\<rparr>], Return_st)
   \<and> tree_at [\<lparr>obj_own_errors = [], obj_sub_errors = [(''x'', 2)]\<rparr>,
              \<lparr>obj_own_errors = [Err_st ''inner''], obj_sub_errors = []\<rparr>,
              \<lparr>obj_own_errors = [Err_st ''x failed''], obj_sub_errors = []\<rparr>] 0
        (NestedException [] [(''x'', NestedException [Err ''x failed''] [])]) {0, 2}
   \<and> exc_at [\<lparr>obj_own_errors = [], obj_sub_errors = []\<rparr>,
            \<lparr>obj_own_errors = [Err_st ''inner''], obj_sub_errors = []\<rparr>]
        (Ref 1) (Nested (NestedException [Err ''inner''] [])) {1}
   \<and> {0::nat} \<inter> {1} = {}
   \<and> isinstance_st (Ref 1) ''Exception''
   \<and> checking_st 4
        [\<lparr>obj_own_errors = [], obj_sub_errors = []\<rparr>,
         \<lparr>obj_own_errors = [Err_st ''inner''], obj_sub_errors = []\<rparr>]
        \<lparr>error_ref = 0, autoraise_st = False, catch_type_st = ''Exception''\<rparr>
        (Raise_st (Ref 1))
     = Some ([\<lparr>obj_own_errors = [Err_st ''inner''], obj_sub_errors = []\<rparr>,
              \<lparr>obj_own_errors = [Err_st ''inner''], obj_sub_errors = []\<rparr>], Return_st)
   \<and> \<not> isinstance_st (Plain [''KeyboardInterrupt'', ''BaseException'', ''object''] ''stop'')
         ''Exception''
   \<and> checking_st 0
        [\<lparr>obj_own_errors = [], obj_sub_errors = []\<rparr>,
         \<lparr>obj_own_errors = [Err_st ''inner''], obj_sub_errors = []\<rparr>]
        \<lparr>error_ref = 0, autoraise_st = False, catch_type_st = ''Exception''\<rparr>
        (Raise_st (Plain [''KeyboardInterrupt'', ''BaseException'', ''object''] ''stop''))
     = Some ([\<lparr>obj_own_errors = [], obj_sub_errors = []\<rparr>,
              \<lparr>obj_own_errors = [Err_st ''inner''], obj_sub_errors = []\<rparr>],
             Raise_st (Plain [''KeyboardInterrupt'', ''BaseException'', ''object''] ''stop''))"
proof -
  let ?a = "\<lparr>error_ref = 0, autoraise_st = False, catch_type_st = ''Exception''\<rparr>"
  let ?h = "[\<lparr>obj_own_errors = [], obj_sub_errors = []\<rparr>,
             \<lparr>obj_own_errors = [Err_st ''inner''], obj_sub_errors = []\<rparr>]"
  let ?h1 = "[\<lparr>obj_own_errors = [], obj_sub_errors = [(''x'', 2)]\<rparr>,
              \<lparr>obj_own_errors = [Err_st ''inner''], obj_sub_errors = []\<rparr>,
              \<lparr>obj_own_errors = [Err_st ''x failed''], obj_sub_errors = []\<rparr>]"
  let ?ki = "Plain [''KeyboardInterrupt'', ''BaseException'', ''object''] ''stop''"
  have t: "tree_at ?h (error_ref ?a) (NestedException [] []) {0}"
    by simp (rule tree_at_leafI, simp_all)
  have t': "tree_at ?h 0 (NestedException [] []) {0}" using t by simp
  have e: "exc_at ?h (Err_st ''x failed'') (Err ''x failed'') {}"
    unfolding Err_st_def Err_def by (rule exc_at.plain)
  have i: "isinstance_st (Err_st ''x failed'') ''Exception''"
    by (simp add: isinstance_st_def Err_st_def)
  have run: "checking_sub_st 2 ?h ?a ''x'' (Raise_st (Err_st ''x failed''))
               = Some (?h1, Return_st)"
    by (simp add: checking_sub_st_def sub_error_st_def isinstance_st_def Err_st_def
          numeral_eq_Suc new_object_def)
  have c1: "tree_at ?h1 2 (NestedException [Err ''x failed''] []) {2}"
    by (rule tree_at_leafI) (simp_all add: Err_st_def Err_def)
  have t1: "tree_at ?h1 0 (NestedException [] [(''x'', NestedException [Err ''x failed''] [])])
              {0, 2}"
    by (rule tree_at_childI[OF _ _ _ c1]) simp_all
  have o: "tree_at ?h 1 (NestedException [Err ''inner''] []) {1}"
    by (rule tree_at_leafI) (simp_all add: Err_st_def Err_def)
  have eo: "exc_at ?h (Ref 1) (Nested (NestedException [Err ''inner''] [])) {1}"
    by (rule exc_at.tree[OF o])
  have d: "{0::nat} \<inter> {1} = {}" by simp
  have io: "isinstance_st (Ref 1) ''Exception''" by (simp add: isinstance_st_def)
  have runo: "checking_st 4 ?h ?a (Raise_st (Ref 1))
     = Some ([\<lparr>obj_own_errors = [Err_st ''inner''], obj_sub_errors = []\<rparr>,
              \<lparr>obj_own_errors = [Err_st ''inner''], obj_sub_errors = []\<rparr>], Return_st)"
    by (simp add: checking_st_def own_error_st_def isinstance_st_def Err_st_def
          numeral_eq_Suc)
  have nk: "\<not> isinstance_st ?ki ''Exception''" by (simp add: isinstance_st_def)
  have runk: "checking_st 0 ?h ?a (Raise_st ?ki) = Some (?h, Raise_st ?ki)"
    by (simp add: checking_st_def isinstance_st_def)
  have d0: "{0::nat} \<inter> {} = {}" by simp
  from checking_catches[OF t e d0, of 2 "''x''"] checking_catches[OF t eo d, of 4 "''x''"]
       t' e i run t1 eo d io runo nk runk
  show ?thesis by (intro conjI)
qed

text \<open>
  C6: \<open>raise_if_any\<close> raises the root exactly when \<open>has_errors\<close> holds, and otherwise returns;
  the aggregator is the same afterwards in both cases. A new aggregator has no errors, so
  \<open>raise_if_any\<close> returns.
\<close>

theorem raise_if_any_gate:
  "raise_if_any a = (a, if has_errors a then Raise (Nested (error a)) else Return)
   \<and> (has_errors a \<longrightarrow> snd (raise_if_any a) = Raise (Nested (error a)))
   \<and> (\<not> has_errors a \<longrightarrow> raise_if_any a = (a, Return))
   \<and> \<not> has_errors (init ar)
   \<and> raise_if_any (init ar) = (init ar, Return)"
  by (simp add: raise_if_any_def has_errors_def init_def nonzero_def)

theorem raise_if_any_gate_witness:
  "has_errors (fst (own_error (init False) (Err ''unmitigated_catastrophe'')))
   \<and> snd (raise_if_any (fst (own_error (init False) (Err ''unmitigated_catastrophe''))))
       = Raise (Nested (NestedException [Err ''unmitigated_catastrophe''] []))
   \<and> \<not> has_errors (init False)
   \<and> raise_if_any (init False) = (init False, Return)"
  using raise_if_any_gate[of "fst (own_error (init False) (Err ''unmitigated_catastrophe''))" False]
        raise_if_any_gate[of "init False" False]
  by (simp add: init_def Err_def own_error_def has_errors_def nonzero_def)





text \<open>
  C8, as stated: for all trees \<open>a\<close>, \<open>b\<close>, \<open>c\<close> the two orders of merging render the same. It
  fails when \<open>c\<close> is a child of \<open>a\<close>. Below, object 0 is \<open>a\<close>, its child under \<open>x\<close> is object
  2, which is \<open>c\<close> (as \<^verbatim>\<open>c = a['x']\<close> gives it) and holds \<open>y\<close>; object 1 is \<open>b\<close>, with a child
  under \<open>x\<close> that holds \<open>z\<close>. Merging \<open>b\<close> into \<open>a\<close> first puts \<open>z\<close> into \<open>c\<close>, and merging \<open>c\<close>
  into \<open>a\<close> then copies both \<open>y\<close> and \<open>z\<close> into the own list of \<open>a\<close>. Merging \<open>c\<close> into \<open>b\<close>
  first copies \<open>y\<close> alone, and merging \<open>b\<close> into \<open>a\<close> then gives \<open>a\<close> the own list \<open>y\<close>. The
  two renderings of \<open>a\<close> differ.
\<close>

theorem merge_order_matters_when_shared:
  "add_own_st 9
     [\<lparr>obj_own_errors = [], obj_sub_errors = [(''x'', 2)]\<rparr>,
      \<lparr>obj_own_errors = [], obj_sub_errors = [(''x'', 3)]\<rparr>,
      \<lparr>obj_own_errors = [Err_st ''y''], obj_sub_errors = []\<rparr>,
      \<lparr>obj_own_errors = [Err_st ''z''], obj_sub_errors = []\<rparr>]
     0 (Ref 1)
   = Some
     [\<lparr>obj_own_errors = [], obj_sub_errors = [(''x'', 2)]\<rparr>,
      \<lparr>obj_own_errors = [], obj_sub_errors = [(''x'', 3)]\<rparr>,
      \<lparr>obj_own_errors = [Err_st ''y'', Err_st ''z''], obj_sub_errors = []\<rparr>,
      \<lparr>obj_own_errors = [Err_st ''z''], obj_sub_errors = []\<rparr>,
      \<lparr>obj_own_errors = [], obj_sub_errors = []\<rparr>]
   \<and> add_own_st 9
     [\<lparr>obj_own_errors = [], obj_sub_errors = [(''x'', 2)]\<rparr>,
      \<lparr>obj_own_errors = [], obj_sub_errors = [(''x'', 3)]\<rparr>,
      \<lparr>obj_own_errors = [Err_st ''y'', Err_st ''z''], obj_sub_errors = []\<rparr>,
      \<lparr>obj_own_errors = [Err_st ''z''], obj_sub_errors = []\<rparr>,
      \<lparr>obj_own_errors = [], obj_sub_errors = []\<rparr>]
     0 (Ref 2)
   = Some
     [\<lparr>obj_own_errors = [Err_st ''y'', Err_st ''z''], obj_sub_errors = [(''x'', 2)]\<rparr>,
      \<lparr>obj_own_errors = [], obj_sub_errors = [(''x'', 3)]\<rparr>,
      \<lparr>obj_own_errors = [Err_st ''y'', Err_st ''z''], obj_sub_errors = []\<rparr>,
      \<lparr>obj_own_errors = [Err_st ''z''], obj_sub_errors = []\<rparr>,
      \<lparr>obj_own_errors = [], obj_sub_errors = []\<rparr>]
   \<and> tree_at
     [\<lparr>obj_own_errors = [Err_st ''y'', Err_st ''z''], obj_sub_errors = [(''x'', 2)]\<rparr>,
      \<lparr>obj_own_errors = [], obj_sub_errors = [(''x'', 3)]\<rparr>,
      \<lparr>obj_own_errors = [Err_st ''y'', Err_st ''z''], obj_sub_errors = []\<rparr>,
      \<lparr>obj_own_errors = [Err_st ''z''], obj_sub_errors = []\<rparr>,
      \<lparr>obj_own_errors = [], obj_sub_errors = []\<rparr>]
     0 (NestedException [Err ''y'', Err ''z'']
          [(''x'', NestedException [Err ''y'', Err ''z''] [])]) {0, 2}
   \<and> str_nested (NestedException [Err ''y'', Err ''z'']
          [(''x'', NestedException [Err ''y'', Err ''z''] [])]) = ''y, z; x: [y, z]''
   \<and> add_own_st 9
     [\<lparr>obj_own_errors = [], obj_sub_errors = [(''x'', 2)]\<rparr>,
      \<lparr>obj_own_errors = [], obj_sub_errors = [(''x'', 3)]\<rparr>,
      \<lparr>obj_own_errors = [Err_st ''y''], obj_sub_errors = []\<rparr>,
      \<lparr>obj_own_errors = [Err_st ''z''], obj_sub_errors = []\<rparr>]
     1 (Ref 2)
   = Some
     [\<lparr>obj_own_errors = [], obj_sub_errors = [(''x'', 2)]\<rparr>,
      \<lparr>obj_own_errors = [Err_st ''y''], obj_sub_errors = [(''x'', 3)]\<rparr>,
      \<lparr>obj_own_errors = [Err_st ''y''], obj_sub_errors = []\<rparr>,
      \<lparr>obj_own_errors = [Err_st ''z''], obj_sub_errors = []\<rparr>]
   \<and> add_own_st 9
     [\<lparr>obj_own_errors = [], obj_sub_errors = [(''x'', 2)]\<rparr>,
      \<lparr>obj_own_errors = [Err_st ''y''], obj_sub_errors = [(''x'', 3)]\<rparr>,
      \<lparr>obj_own_errors = [Err_st ''y''], obj_sub_errors = []\<rparr>,
      \<lparr>obj_own_errors = [Err_st ''z''], obj_sub_errors = []\<rparr>]
     0 (Ref 1)
   = Some
     [\<lparr>obj_own_errors = [Err_st ''y''], obj_sub_errors = [(''x'', 2)]\<rparr>,
      \<lparr>obj_own_errors = [Err_st ''y''], obj_sub_errors = [(''x'', 3)]\<rparr>,
      \<lparr>obj_own_errors = [Err_st ''y'', Err_st ''z''], obj_sub_errors = []\<rparr>,
      \<lparr>obj_own_errors = [Err_st ''z''], obj_sub_errors = []\<rparr>,
      \<lparr>obj_own_errors = [], obj_sub_errors = []\<rparr>]
   \<and> tree_at
     [\<lparr>obj_own_errors = [Err_st ''y''], obj_sub_errors = [(''x'', 2)]\<rparr>,
      \<lparr>obj_own_errors = [Err_st ''y''], obj_sub_errors = [(''x'', 3)]\<rparr>,
      \<lparr>obj_own_errors = [Err_st ''y'', Err_st ''z''], obj_sub_errors = []\<rparr>,
      \<lparr>obj_own_errors = [Err_st ''z''], obj_sub_errors = []\<rparr>,
      \<lparr>obj_own_errors = [], obj_sub_errors = []\<rparr>]
     0 (NestedException [Err ''y''] [(''x'', NestedException [Err ''y'', Err ''z''] [])]) {0, 2}
   \<and> str_nested (NestedException [Err ''y'']
          [(''x'', NestedException [Err ''y'', Err ''z''] [])]) = ''y; x: [y, z]''"
proof -
  let ?h2 = "[\<lparr>obj_own_errors = [Err_st ''y'', Err_st ''z''], obj_sub_errors = [(''x'', 2)]\<rparr>,
      \<lparr>obj_own_errors = [], obj_sub_errors = [(''x'', 3)]\<rparr>,
      \<lparr>obj_own_errors = [Err_st ''y'', Err_st ''z''], obj_sub_errors = []\<rparr>,
      \<lparr>obj_own_errors = [Err_st ''z''], obj_sub_errors = []\<rparr>,
      \<lparr>obj_own_errors = [], obj_sub_errors = []\<rparr>]"
  let ?h4 = "[\<lparr>obj_own_errors = [Err_st ''y''], obj_sub_errors = [(''x'', 2)]\<rparr>,
      \<lparr>obj_own_errors = [Err_st ''y''], obj_sub_errors = [(''x'', 3)]\<rparr>,
      \<lparr>obj_own_errors = [Err_st ''y'', Err_st ''z''], obj_sub_errors = []\<rparr>,
      \<lparr>obj_own_errors = [Err_st ''z''], obj_sub_errors = []\<rparr>,
      \<lparr>obj_own_errors = [], obj_sub_errors = []\<rparr>]"
  have c2: "tree_at ?h2 2 (NestedException [Err ''y'', Err ''z''] []) {2}"
    by (rule tree_at_leafI) (simp_all add: Err_st_def Err_def)
  have t2: "tree_at ?h2 0 (NestedException [Err ''y'', Err ''z'']
          [(''x'', NestedException [Err ''y'', Err ''z''] [])]) {0, 2}"
    by (rule tree_at_childI[OF _ _ _ c2]) (simp_all add: Err_st_def Err_def)
  have c4: "tree_at ?h4 2 (NestedException [Err ''y'', Err ''z''] []) {2}"
    by (rule tree_at_leafI) (simp_all add: Err_st_def Err_def)
  have t4: "tree_at ?h4 0 (NestedException [Err ''y'']
          [(''x'', NestedException [Err ''y'', Err ''z''] [])]) {0, 2}"
    by (rule tree_at_childI[OF _ _ _ c4]) (simp_all add: Err_st_def Err_def)
  show ?thesis
    by (intro conjI; (rule t2 | rule t4
          | simp add: numeral_eq_Suc new_object_def Err_st_def Err_def))
qed

text \<open>
  C8, amended: let \<open>a\<close>, \<open>b\<close>, \<open>c\<close> be trees of objects no two of which share an object, with
  pairwise different keys among the children of every object (\<open>wf_nested\<close> of the trees as
  values \<open>va\<close>, \<open>vb\<close>, \<open>vc\<close>). Then merging \<open>b\<close> into \<open>a\<close> and then \<open>c\<close> into \<open>a\<close> returns, and
  so does merging \<open>c\<close> into \<open>b\<close> and then \<open>b\<close> into \<open>a\<close>; \<open>a\<close> is the same tree after both, and
  so renders the same. Merging \<open>t\<close> into \<open>n\<close> is replaying the own failures of \<open>t\<close> with
  \<open>add_own\<close> and then the children of \<open>t\<close> with \<open>add_sub\<close>, in their order.
\<close>

theorem merge_associative:
  assumes "tree_at h a va Fa" "tree_at h b vb Fb" "tree_at h c vc Fc"
    and "Fa \<inter> Fb = {}" "Fa \<inter> Fc = {}" "Fb \<inter> Fc = {}"
    and "wf_nested va" "wf_nested vb" "wf_nested vc"
  shows "(\<exists>k h1 k' h2 F. add_own_st k h a (Ref b) = Some h1 \<and> add_own_st k' h1 a (Ref c) = Some h2
            \<and> tree_at h2 a (add_own (add_own va (Nested vb)) (Nested vc)) F)
       \<and> (\<exists>k h1 k' h2 F. add_own_st k h b (Ref c) = Some h1 \<and> add_own_st k' h1 a (Ref b) = Some h2
            \<and> tree_at h2 a (add_own va (Nested (add_own vb (Nested vc)))) F)
       \<and> add_own (add_own va (Nested vb)) (Nested vc) = add_own va (Nested (add_own vb (Nested vc)))
       \<and> str_nested (add_own (add_own va (Nested vb)) (Nested vc))
           = str_nested (add_own va (Nested (add_own vb (Nested vc))))
       \<and> add_own va (Nested vb)
           = fold (\<lambda>(key, sub) m. add_sub m key (Nested sub)) (sub_errors vb)
               (fold (\<lambda>e m. add_own m e) (own_errors vb) va)"
proof (intro conjI)
  from add_own_refines[OF exc_at.tree[OF assms(2)] assms(1,4)] obtain k1 h1 F1 where
    r1: "add_own_st k1 h a (Ref b) = Some h1"
    and t1: "tree_at h1 a (add_own va (Nested vb)) F1" and g1: "grows h Fa h1 F1"
    by blast
  have c1: "tree_at h1 c vc Fc \<and> Fc \<inter> F1 = {}"
    by (rule tree_at_grows(1)[OF g1 _ assms(3)]) (use assms(5) in auto)
  then have d1: "F1 \<inter> Fc = {}" by auto
  from add_own_refines[OF exc_at.tree t1 d1] c1 obtain k2 h2 F2 where
    "add_own_st k2 h1 a (Ref c) = Some h2"
    "tree_at h2 a (add_own (add_own va (Nested vb)) (Nested vc)) F2"
    by blast
  with r1 show "\<exists>k h1 k' h2 F. add_own_st k h a (Ref b) = Some h1
            \<and> add_own_st k' h1 a (Ref c) = Some h2
            \<and> tree_at h2 a (add_own (add_own va (Nested vb)) (Nested vc)) F"
    by blast
next
  from add_own_refines[OF exc_at.tree[OF assms(3)] assms(2,6)] obtain k1 h1 F1 where
    r1: "add_own_st k1 h b (Ref c) = Some h1"
    and t1: "tree_at h1 b (add_own vb (Nested vc)) F1" and g1: "grows h Fb h1 F1"
    by blast
  have a1: "tree_at h1 a va Fa \<and> Fa \<inter> F1 = {}"
    by (rule tree_at_grows(1)[OF g1 assms(4) assms(1)])
  from add_own_refines[OF exc_at.tree[OF t1], of a va Fa] a1 obtain k2 h2 F2 where
    "add_own_st k2 h1 a (Ref b) = Some h2"
    "tree_at h2 a (add_own va (Nested (add_own vb (Nested vc)))) F2"
    by blast
  with r1 show "\<exists>k h1 k' h2 F. add_own_st k h b (Ref c) = Some h1
            \<and> add_own_st k' h1 a (Ref b) = Some h2
            \<and> tree_at h2 a (add_own va (Nested (add_own vb (Nested vc)))) F"
    by blast
next
  show eq: "add_own (add_own va (Nested vb)) (Nested vc)
              = add_own va (Nested (add_own vb (Nested vc)))"
    using assms(7,8,9) by (simp add: merge_assoc)
  show "str_nested (add_own (add_own va (Nested vb)) (Nested vc))
          = str_nested (add_own va (Nested (add_own vb (Nested vc))))"
    by (simp only: eq)
  have "merge_own m es = fold (\<lambda>e m. add_own m e) es m" for m es
    by (induction es arbitrary: m) simp_all
  then show "add_own va (Nested vb)
       = fold (\<lambda>(key, sub) m. add_sub m key (Nested sub)) (sub_errors vb)
           (fold (\<lambda>e m. add_own m e) (own_errors vb) va)"
    by (cases vb) (simp add: merge_sub_fold del: add_sub.simps)
qed

text \<open>
  Three trees in one store: \<open>a\<close> at 0, \<open>b\<close> at 1 with its child at 2, \<open>c\<close> at 3 with its child
  at 4. Both orders leave at 0 the tree that renders \<open>a, b, c; foo: [b1, c1]\<close>.
\<close>

theorem merge_associative_witness:
  "tree_at
     [\<lparr>obj_own_errors = [Err_st ''a''], obj_sub_errors = []\<rparr>,
      \<lparr>obj_own_errors = [Err_st ''b''], obj_sub_errors = [(''foo'', 2)]\<rparr>,
      \<lparr>obj_own_errors = [Err_st ''b1''], obj_sub_errors = []\<rparr>,
      \<lparr>obj_own_errors = [Err_st ''c''], obj_sub_errors = [(''foo'', 4)]\<rparr>,
      \<lparr>obj_own_errors = [Err_st ''c1''], obj_sub_errors = []\<rparr>]
     0 (NestedException [Err ''a''] []) {0}
   \<and> tree_at
     [\<lparr>obj_own_errors = [Err_st ''a''], obj_sub_errors = []\<rparr>,
      \<lparr>obj_own_errors = [Err_st ''b''], obj_sub_errors = [(''foo'', 2)]\<rparr>,
      \<lparr>obj_own_errors = [Err_st ''b1''], obj_sub_errors = []\<rparr>,
      \<lparr>obj_own_errors = [Err_st ''c''], obj_sub_errors = [(''foo'', 4)]\<rparr>,
      \<lparr>obj_own_errors = [Err_st ''c1''], obj_sub_errors = []\<rparr>]
     1 (NestedException [Err ''b''] [(''foo'', NestedException [Err ''b1''] [])]) {1, 2}
   \<and> tree_at
     [\<lparr>obj_own_errors = [Err_st ''a''], obj_sub_errors = []\<rparr>,
      \<lparr>obj_own_errors = [Err_st ''b''], obj_sub_errors = [(''foo'', 2)]\<rparr>,
      \<lparr>obj_own_errors = [Err_st ''b1''], obj_sub_errors = []\<rparr>,
      \<lparr>obj_own_errors = [Err_st ''c''], obj_sub_errors = [(''foo'', 4)]\<rparr>,
      \<lparr>obj_own_errors = [Err_st ''c1''], obj_sub_errors = []\<rparr>]
     3 (NestedException [Err ''c''] [(''foo'', NestedException [Err ''c1''] [])]) {3, 4}
   \<and> {0::nat} \<inter> {1, 2} = {}
   \<and> {0::nat} \<inter> {3, 4} = {}
   \<and> {1, 2::nat} \<inter> {3, 4} = {}
   \<and> wf_nested (NestedException [Err ''a''] [])
   \<and> wf_nested (NestedException [Err ''b''] [(''foo'', NestedException [Err ''b1''] [])])
   \<and> wf_nested (NestedException [Err ''c''] [(''foo'', NestedException [Err ''c1''] [])])
   \<and> add_own_st 12
     [\<lparr>obj_own_errors = [Err_st ''a''], obj_sub_errors = []\<rparr>,
      \<lparr>obj_own_errors = [Err_st ''b''], obj_sub_errors = [(''foo'', 2)]\<rparr>,
      \<lparr>obj_own_errors = [Err_st ''b1''], obj_sub_errors = []\<rparr>,
      \<lparr>obj_own_errors = [Err_st ''c''], obj_sub_errors = [(''foo'', 4)]\<rparr>,
      \<lparr>obj_own_errors = [Err_st ''c1''], obj_sub_errors = []\<rparr>]
     0 (Ref 1)
   = Some
     [\<lparr>obj_own_errors = [Err_st ''a'', Err_st ''b''], obj_sub_errors = [(''foo'', 5)]\<rparr>,
      \<lparr>obj_own_errors = [Err_st ''b''], obj_sub_errors = [(''foo'', 2)]\<rparr>,
      \<lparr>obj_own_errors = [Err_st ''b1''], obj_sub_errors = []\<rparr>,
      \<lparr>obj_own_errors = [Err_st ''c''], obj_sub_errors = [(''foo'', 4)]\<rparr>,
      \<lparr>obj_own_errors = [Err_st ''c1''], obj_sub_errors = []\<rparr>,
      \<lparr>obj_own_errors = [Err_st ''b1''], obj_sub_errors = []\<rparr>]
   \<and> add_own_st 12
     [\<lparr>obj_own_errors = [Err_st ''a'', Err_st ''b''], obj_sub_errors = [(''foo'', 5)]\<rparr>,
      \<lparr>obj_own_errors = [Err_st ''b''], obj_sub_errors = [(''foo'', 2)]\<rparr>,
      \<lparr>obj_own_errors = [Err_st ''b1''], obj_sub_errors = []\<rparr>,
      \<lparr>obj_own_errors = [Err_st ''c''], obj_sub_errors = [(''foo'', 4)]\<rparr>,
      \<lparr>obj_own_errors = [Err_st ''c1''], obj_sub_errors = []\<rparr>,
      \<lparr>obj_own_errors = [Err_st ''b1''], obj_sub_errors = []\<rparr>]
     0 (Ref 3)
   = Some
     [\<lparr>obj_own_errors = [Err_st ''a'', Err_st ''b'', Err_st ''c''], obj_sub_errors = [(''foo'', 5)]\<rparr>,
      \<lparr>obj_own_errors = [Err_st ''b''], obj_sub_errors = [(''foo'', 2)]\<rparr>,
      \<lparr>obj_own_errors = [Err_st ''b1''], obj_sub_errors = []\<rparr>,
      \<lparr>obj_own_errors = [Err_st ''c''], obj_sub_errors = [(''foo'', 4)]\<rparr>,
      \<lparr>obj_own_errors = [Err_st ''c1''], obj_sub_errors = []\<rparr>,
      \<lparr>obj_own_errors = [Err_st ''b1'', Err_st ''c1''], obj_sub_errors = []\<rparr>,
      \<lparr>obj_own_errors = [], obj_sub_errors = []\<rparr>]
   \<and> tree_at
     [\<lparr>obj_own_errors = [Err_st ''a'', Err_st ''b'', Err_st ''c''], obj_sub_errors = [(''foo'', 5)]\<rparr>,
      \<lparr>obj_own_errors = [Err_st ''b''], obj_sub_errors = [(''foo'', 2)]\<rparr>,
      \<lparr>obj_own_errors = [Err_st ''b1''], obj_sub_errors = []\<rparr>,
      \<lparr>obj_own_errors = [Err_st ''c''], obj_sub_errors = [(''foo'', 4)]\<rparr>,
      \<lparr>obj_own_errors = [Err_st ''c1''], obj_sub_errors = []\<rparr>,
      \<lparr>obj_own_errors = [Err_st ''b1'', Err_st ''c1''], obj_sub_errors = []\<rparr>,
      \<lparr>obj_own_errors = [], obj_sub_errors = []\<rparr>]
     0 (NestedException [Err ''a'', Err ''b'', Err ''c''] [(''foo'', NestedException [Err ''b1'', Err ''c1''] [])]) {0, 5}
   \<and> add_own_st 12
     [\<lparr>obj_own_errors = [Err_st ''a''], obj_sub_errors = []\<rparr>,
      \<lparr>obj_own_errors = [Err_st ''b''], obj_sub_errors = [(''foo'', 2)]\<rparr>,
      \<lparr>obj_own_errors = [Err_st ''b1''], obj_sub_errors = []\<rparr>,
      \<lparr>obj_own_errors = [Err_st ''c''], obj_sub_errors = [(''foo'', 4)]\<rparr>,
      \<lparr>obj_own_errors = [Err_st ''c1''], obj_sub_errors = []\<rparr>]
     1 (Ref 3)
   = Some
     [\<lparr>obj_own_errors = [Err_st ''a''], obj_sub_errors = []\<rparr>,
      \<lparr>obj_own_errors = [Err_st ''b'', Err_st ''c''], obj_sub_errors = [(''foo'', 2)]\<rparr>,
      \<lparr>obj_own_errors = [Err_st ''b1'', Err_st ''c1''], obj_sub_errors = []\<rparr>,
      \<lparr>obj_own_errors = [Err_st ''c''], obj_sub_errors = [(''foo'', 4)]\<rparr>,
      \<lparr>obj_own_errors = [Err_st ''c1''], obj_sub_errors = []\<rparr>,
      \<lparr>obj_own_errors = [], obj_sub_errors = []\<rparr>]
   \<and> add_own_st 12
     [\<lparr>obj_own_errors = [Err_st ''a''], obj_sub_errors = []\<rparr>,
      \<lparr>obj_own_errors = [Err_st ''b'', Err_st ''c''], obj_sub_errors = [(''foo'', 2)]\<rparr>,
      \<lparr>obj_own_errors = [Err_st ''b1'', Err_st ''c1''], obj_sub_errors = []\<rparr>,
      \<lparr>obj_own_errors = [Err_st ''c''], obj_sub_errors = [(''foo'', 4)]\<rparr>,
      \<lparr>obj_own_errors = [Err_st ''c1''], obj_sub_errors = []\<rparr>,
      \<lparr>obj_own_errors = [], obj_sub_errors = []\<rparr>]
     0 (Ref 1)
   = Some
     [\<lparr>obj_own_errors = [Err_st ''a'', Err_st ''b'', Err_st ''c''], obj_sub_errors = [(''foo'', 6)]\<rparr>,
      \<lparr>obj_own_errors = [Err_st ''b'', Err_st ''c''], obj_sub_errors = [(''foo'', 2)]\<rparr>,
      \<lparr>obj_own_errors = [Err_st ''b1'', Err_st ''c1''], obj_sub_errors = []\<rparr>,
      \<lparr>obj_own_errors = [Err_st ''c''], obj_sub_errors = [(''foo'', 4)]\<rparr>,
      \<lparr>obj_own_errors = [Err_st ''c1''], obj_sub_errors = []\<rparr>,
      \<lparr>obj_own_errors = [], obj_sub_errors = []\<rparr>,
      \<lparr>obj_own_errors = [Err_st ''b1'', Err_st ''c1''], obj_sub_errors = []\<rparr>]
   \<and> tree_at
     [\<lparr>obj_own_errors = [Err_st ''a'', Err_st ''b'', Err_st ''c''], obj_sub_errors = [(''foo'', 6)]\<rparr>,
      \<lparr>obj_own_errors = [Err_st ''b'', Err_st ''c''], obj_sub_errors = [(''foo'', 2)]\<rparr>,
      \<lparr>obj_own_errors = [Err_st ''b1'', Err_st ''c1''], obj_sub_errors = []\<rparr>,
      \<lparr>obj_own_errors = [Err_st ''c''], obj_sub_errors = [(''foo'', 4)]\<rparr>,
      \<lparr>obj_own_errors = [Err_st ''c1''], obj_sub_errors = []\<rparr>,
      \<lparr>obj_own_errors = [], obj_sub_errors = []\<rparr>,
      \<lparr>obj_own_errors = [Err_st ''b1'', Err_st ''c1''], obj_sub_errors = []\<rparr>]
     0 (NestedException [Err ''a'', Err ''b'', Err ''c''] [(''foo'', NestedException [Err ''b1'', Err ''c1''] [])]) {0, 6}
   \<and> str_nested (NestedException [Err ''a'', Err ''b'', Err ''c''] [(''foo'', NestedException [Err ''b1'', Err ''c1''] [])])
     = ''a, b, c; foo: [b1, c1]''"
proof -
  let ?h = "
    [\<lparr>obj_own_errors = [Err_st ''a''], obj_sub_errors = []\<rparr>,
     \<lparr>obj_own_errors = [Err_st ''b''], obj_sub_errors = [(''foo'', 2)]\<rparr>,
     \<lparr>obj_own_errors = [Err_st ''b1''], obj_sub_errors = []\<rparr>,
     \<lparr>obj_own_errors = [Err_st ''c''], obj_sub_errors = [(''foo'', 4)]\<rparr>,
     \<lparr>obj_own_errors = [Err_st ''c1''], obj_sub_errors = []\<rparr>]"
  let ?h2 = "
    [\<lparr>obj_own_errors = [Err_st ''a'', Err_st ''b'', Err_st ''c''], obj_sub_errors = [(''foo'', 5)]\<rparr>,
     \<lparr>obj_own_errors = [Err_st ''b''], obj_sub_errors = [(''foo'', 2)]\<rparr>,
     \<lparr>obj_own_errors = [Err_st ''b1''], obj_sub_errors = []\<rparr>,
     \<lparr>obj_own_errors = [Err_st ''c''], obj_sub_errors = [(''foo'', 4)]\<rparr>,
     \<lparr>obj_own_errors = [Err_st ''c1''], obj_sub_errors = []\<rparr>,
     \<lparr>obj_own_errors = [Err_st ''b1'', Err_st ''c1''], obj_sub_errors = []\<rparr>,
     \<lparr>obj_own_errors = [], obj_sub_errors = []\<rparr>]"
  let ?h4 = "
    [\<lparr>obj_own_errors = [Err_st ''a'', Err_st ''b'', Err_st ''c''], obj_sub_errors = [(''foo'', 6)]\<rparr>,
     \<lparr>obj_own_errors = [Err_st ''b'', Err_st ''c''], obj_sub_errors = [(''foo'', 2)]\<rparr>,
     \<lparr>obj_own_errors = [Err_st ''b1'', Err_st ''c1''], obj_sub_errors = []\<rparr>,
     \<lparr>obj_own_errors = [Err_st ''c''], obj_sub_errors = [(''foo'', 4)]\<rparr>,
     \<lparr>obj_own_errors = [Err_st ''c1''], obj_sub_errors = []\<rparr>,
     \<lparr>obj_own_errors = [], obj_sub_errors = []\<rparr>,
     \<lparr>obj_own_errors = [Err_st ''b1'', Err_st ''c1''], obj_sub_errors = []\<rparr>]"
  let ?h1 = "
    [\<lparr>obj_own_errors = [Err_st ''a'', Err_st ''b''], obj_sub_errors = [(''foo'', 5)]\<rparr>,
     \<lparr>obj_own_errors = [Err_st ''b''], obj_sub_errors = [(''foo'', 2)]\<rparr>,
     \<lparr>obj_own_errors = [Err_st ''b1''], obj_sub_errors = []\<rparr>,
     \<lparr>obj_own_errors = [Err_st ''c''], obj_sub_errors = [(''foo'', 4)]\<rparr>,
     \<lparr>obj_own_errors = [Err_st ''c1''], obj_sub_errors = []\<rparr>,
     \<lparr>obj_own_errors = [Err_st ''b1''], obj_sub_errors = []\<rparr>]"
  let ?h3 = "
    [\<lparr>obj_own_errors = [Err_st ''a''], obj_sub_errors = []\<rparr>,
     \<lparr>obj_own_errors = [Err_st ''b'', Err_st ''c''], obj_sub_errors = [(''foo'', 2)]\<rparr>,
     \<lparr>obj_own_errors = [Err_st ''b1'', Err_st ''c1''], obj_sub_errors = []\<rparr>,
     \<lparr>obj_own_errors = [Err_st ''c''], obj_sub_errors = [(''foo'', 4)]\<rparr>,
     \<lparr>obj_own_errors = [Err_st ''c1''], obj_sub_errors = []\<rparr>,
     \<lparr>obj_own_errors = [], obj_sub_errors = []\<rparr>]"
  have a: "tree_at ?h 0 (NestedException [Err ''a''] []) {0}"
    by (rule tree_at_leafI) (simp_all add: Err_st_def Err_def)
  have b1: "tree_at ?h 2 (NestedException [Err ''b1''] []) {2}"
    by (rule tree_at_leafI) (simp_all add: Err_st_def Err_def)
  have b: "tree_at ?h 1 (NestedException [Err ''b''] [(''foo'', NestedException [Err ''b1''] [])]) {1, 2}"
    by (rule tree_at_childI[OF _ _ _ b1]) (simp_all add: Err_st_def Err_def)
  have c1: "tree_at ?h 4 (NestedException [Err ''c1''] []) {4}"
    by (rule tree_at_leafI) (simp_all add: Err_st_def Err_def)
  have c: "tree_at ?h 3 (NestedException [Err ''c''] [(''foo'', NestedException [Err ''c1''] [])]) {3, 4}"
    by (rule tree_at_childI[OF _ _ _ c1]) (simp_all add: Err_st_def Err_def)
  have dab: "{0::nat} \<inter> {1, 2} = {}" and dac: "{0::nat} \<inter> {3, 4} = {}"
    and dbc: "{1, 2::nat} \<inter> {3, 4} = {}"
    by simp_all
  have wa: "wf_nested (NestedException [Err ''a''] [])"
    and wb: "wf_nested (NestedException [Err ''b''] [(''foo'', NestedException [Err ''b1''] [])])"
    and wc: "wf_nested (NestedException [Err ''c''] [(''foo'', NestedException [Err ''c1''] [])])"
    by (simp_all add: Err_def)
  have r2: "tree_at ?h2 5 (NestedException [Err ''b1'', Err ''c1''] []) {5}"
    by (rule tree_at_leafI) (simp_all add: Err_st_def Err_def)
  have t2: "tree_at ?h2 0 (NestedException [Err ''a'', Err ''b'', Err ''c''] [(''foo'', NestedException [Err ''b1'', Err ''c1''] [])]) {0, 5}"
    by (rule tree_at_childI[OF _ _ _ r2]) (simp_all add: Err_st_def Err_def)
  have r4: "tree_at ?h4 6 (NestedException [Err ''b1'', Err ''c1''] []) {6}"
    by (rule tree_at_leafI) (simp_all add: Err_st_def Err_def)
  have t4: "tree_at ?h4 0 (NestedException [Err ''a'', Err ''b'', Err ''c''] [(''foo'', NestedException [Err ''b1'', Err ''c1''] [])]) {0, 6}"
    by (rule tree_at_childI[OF _ _ _ r4]) (simp_all add: Err_st_def Err_def)
  have run1: "add_own_st 12 ?h 0 (Ref 1) = Some ?h1"
    and run2: "add_own_st 12 ?h1 0 (Ref 3) = Some ?h2"
    and run3: "add_own_st 12 ?h 1 (Ref 3) = Some ?h3"
    and run4: "add_own_st 12 ?h3 0 (Ref 1) = Some ?h4"
    by (simp_all add: numeral_eq_Suc new_object_def Err_st_def)
  have s: "str_nested (NestedException [Err ''a'', Err ''b'', Err ''c''] [(''foo'', NestedException [Err ''b1'', Err ''c1''] [])])
     = ''a, b, c; foo: [b1, c1]''"
    by (simp add: Err_def)
  from merge_associative[OF a b c dab dac dbc wa wb wc]
       a b c dab dac dbc wa wb wc run1 run2 t2 run3 run4 t4 s
  show ?thesis by (intro conjI)
qed

text \<open>
  C10, as stated: for every pair of trees \<open>n\<close> and \<open>t\<close>, \<open>n.add_own(t)\<close> leaves \<open>t\<close> unchanged.
  It fails when \<open>t\<close> is an object of the tree of \<open>n\<close>. Below, object 0 is \<open>n\<close>, its child
  under \<open>foo\<close> is object 1, which is \<open>t\<close> (as \<^verbatim>\<open>t = n['foo']\<close> gives it), and \<open>t\<close> has a child
  under \<open>foo\<close> with one failure. \<open>n.add_own(t)\<close> calls \<open>n.add_sub('foo', u)\<close>, which finds \<open>t\<close>
  under \<open>foo\<close> and merges \<open>u\<close> into it: the own list of \<open>t\<close> was empty and now holds the
  failure.
\<close>

theorem merge_mutates_shared_argument:
  "add_own_st 8
     [\<lparr>obj_own_errors = [], obj_sub_errors = [(''foo'', 1)]\<rparr>,
      \<lparr>obj_own_errors = [], obj_sub_errors = [(''foo'', 2)]\<rparr>,
      \<lparr>obj_own_errors = [Plain [''Exception''] ''x''], obj_sub_errors = []\<rparr>]
     0 (Ref 1)
   = Some
     [\<lparr>obj_own_errors = [], obj_sub_errors = [(''foo'', 1)]\<rparr>,
      \<lparr>obj_own_errors = [Plain [''Exception''] ''x''], obj_sub_errors = [(''foo'', 2)]\<rparr>,
      \<lparr>obj_own_errors = [Plain [''Exception''] ''x''], obj_sub_errors = []\<rparr>,
      \<lparr>obj_own_errors = [], obj_sub_errors = []\<rparr>]
   \<and> obj_own_errors
        ([\<lparr>obj_own_errors = [], obj_sub_errors = [(''foo'', 1)]\<rparr>,
          \<lparr>obj_own_errors = [], obj_sub_errors = [(''foo'', 2)]\<rparr>,
          \<lparr>obj_own_errors = [Plain [''Exception''] ''x''], obj_sub_errors = []\<rparr>] ! 1)
       \<noteq> obj_own_errors
        ([\<lparr>obj_own_errors = [], obj_sub_errors = [(''foo'', 1)]\<rparr>,
          \<lparr>obj_own_errors = [Plain [''Exception''] ''x''], obj_sub_errors = [(''foo'', 2)]\<rparr>,
          \<lparr>obj_own_errors = [Plain [''Exception''] ''x''], obj_sub_errors = []\<rparr>,
          \<lparr>obj_own_errors = [], obj_sub_errors = []\<rparr>] ! 1)"
  by (simp add: numeral_eq_Suc new_object_def)

text \<open>
  C10, amended: let \<open>W\<close> hold \<open>n\<close> and, with every object, its children (the tree of \<open>n\<close>),
  let \<open>S\<close> do the same for \<open>t\<close>, and let the two share no object. Then a call of
  \<open>n.add_own(t)\<close>, or of \<open>n.merge(t)\<close>, that returns leaves every object of \<open>S\<close> as it was, own
  list and children: \<open>t\<close> is unchanged, recursively. Every object that existed before the
  call and is outside \<open>W\<close> is unchanged; only the tree of \<open>n\<close> and new objects are written.
  When \<open>t\<close> is a finite tree with ordinary exceptions in its own lists, the call does return.
\<close>

theorem merge_leaves_argument_unchanged:
  assumes "n \<in> W" "closed_under_subs h W" "t \<in> S" "closed_under_subs h S" "W \<inter> S = {}"
  shows "(add_own_st fuel h n (Ref t) = Some h' \<or> merge_st fuel h n t = Some h' \<longrightarrow>
            (\<forall>a\<in>S. h' ! a = h ! a) \<and> closed_under_subs h' S \<and> length h \<le> length h'
          \<and> (\<forall>a<length h. a \<notin> W \<longrightarrow> h' ! a = h ! a))
       \<and> (plain_tree d h t \<longrightarrow>
            (\<exists>k h''. add_own_st k h n (Ref t) = Some h'' \<and> (\<forall>a\<in>S. h'' ! a = h ! a)))"
proof (intro conjI impI)
  have sep: "separate h W S" using assms by (simp add: separate_def)
  have fr: "writes_inside h x W"
    if "add_own_st k h n (Ref t) = Some x \<or> merge_st k h n t = Some x" for k x
    using that store_frame(1)[OF _ assms(1,2)] store_frame(3)[OF _ assms(1,2)] by blast
  {
    assume r: "add_own_st fuel h n (Ref t) = Some h' \<or> merge_st fuel h n t = Some h'"
    have f: "writes_inside h h' W" by (rule fr[OF r])
    show "\<forall>a\<in>S. h' ! a = h ! a" by (rule separate_step(2)[OF f sep])
    show "closed_under_subs h' S" using separate_step(1)[OF f sep] by (simp add: separate_def)
    show "length h \<le> length h'" using f by (simp add: writes_inside_def)
    show "\<forall>a<length h. a \<notin> W \<longrightarrow> h' ! a = h ! a" using f by (simp add: writes_inside_def)
  }
  assume "plain_tree d h t"
  from merge_st_returns[OF this assms(3,1) sep] obtain k x where
    m: "merge_st k h n t = Some x" by blast
  then have a: "add_own_st (Suc k) h n (Ref t) = Some x" by simp
  have "\<forall>a\<in>S. x ! a = h ! a" by (rule separate_step(2)[OF fr sep]) (use m in blast)
  with a show "\<exists>k h''. add_own_st k h n (Ref t) = Some h'' \<and> (\<forall>a\<in>S. h'' ! a = h ! a)"
    by blast
qed

theorem merge_leaves_argument_unchanged_witness:
  "(0::nat) \<in> {0}
   \<and> closed_under_subs
     [\<lparr>obj_own_errors = [Plain [''Exception''] ''a''], obj_sub_errors = []\<rparr>,
      \<lparr>obj_own_errors = [Plain [''Exception''] ''b''], obj_sub_errors = [(''foo'', 2)]\<rparr>,
      \<lparr>obj_own_errors = [Plain [''Exception''] ''x''], obj_sub_errors = []\<rparr>] {0}
   \<and> (1::nat) \<in> {1, 2}
   \<and> closed_under_subs
     [\<lparr>obj_own_errors = [Plain [''Exception''] ''a''], obj_sub_errors = []\<rparr>,
      \<lparr>obj_own_errors = [Plain [''Exception''] ''b''], obj_sub_errors = [(''foo'', 2)]\<rparr>,
      \<lparr>obj_own_errors = [Plain [''Exception''] ''x''], obj_sub_errors = []\<rparr>] {1, 2}
   \<and> {0::nat} \<inter> {1, 2} = {}
   \<and> plain_tree 2
     [\<lparr>obj_own_errors = [Plain [''Exception''] ''a''], obj_sub_errors = []\<rparr>,
      \<lparr>obj_own_errors = [Plain [''Exception''] ''b''], obj_sub_errors = [(''foo'', 2)]\<rparr>,
      \<lparr>obj_own_errors = [Plain [''Exception''] ''x''], obj_sub_errors = []\<rparr>] 1
   \<and> add_own_st 20
     [\<lparr>obj_own_errors = [Plain [''Exception''] ''a''], obj_sub_errors = []\<rparr>,
      \<lparr>obj_own_errors = [Plain [''Exception''] ''b''], obj_sub_errors = [(''foo'', 2)]\<rparr>,
      \<lparr>obj_own_errors = [Plain [''Exception''] ''x''], obj_sub_errors = []\<rparr>]
     0 (Ref 1)
   = Some
     [\<lparr>obj_own_errors = [Plain [''Exception''] ''a'', Plain [''Exception''] ''b''],
        obj_sub_errors = [(''foo'', 3)]\<rparr>,
      \<lparr>obj_own_errors = [Plain [''Exception''] ''b''], obj_sub_errors = [(''foo'', 2)]\<rparr>,
      \<lparr>obj_own_errors = [Plain [''Exception''] ''x''], obj_sub_errors = []\<rparr>,
      \<lparr>obj_own_errors = [Plain [''Exception''] ''x''], obj_sub_errors = []\<rparr>]"
  using merge_leaves_argument_unchanged[of 0 "{0}"
     "[\<lparr>obj_own_errors = [Plain [''Exception''] ''a''], obj_sub_errors = []\<rparr>,
      \<lparr>obj_own_errors = [Plain [''Exception''] ''b''], obj_sub_errors = [(''foo'', 2)]\<rparr>,
      \<lparr>obj_own_errors = [Plain [''Exception''] ''x''], obj_sub_errors = []\<rparr>]"
     1 "{1, 2}" 20
     "[\<lparr>obj_own_errors = [Plain [''Exception''] ''a'', Plain [''Exception''] ''b''],
        obj_sub_errors = [(''foo'', 3)]\<rparr>,
      \<lparr>obj_own_errors = [Plain [''Exception''] ''b''], obj_sub_errors = [(''foo'', 2)]\<rparr>,
      \<lparr>obj_own_errors = [Plain [''Exception''] ''x''], obj_sub_errors = []\<rparr>,
      \<lparr>obj_own_errors = [Plain [''Exception''] ''x''], obj_sub_errors = []\<rparr>]"
     2]
  by (simp add: numeral_eq_Suc new_object_def closed_under_subs_def)

end
